theory Spec2Isabelle
  imports Complex_Main "HOL-Library.Monad_Syntax" "HOL-Library.Multiset"
begin

section \<open>Data model\<close>

text \<open>
  The node and tree types are declared in \<^verbatim>\<open>kdtree.hpp\<close> and \<^verbatim>\<open>octree.hpp\<close>, which are not
  among the sources. Their fields are the ones the Python binding exposes
  (\<^verbatim>\<open>_fmm/_fmm.cpp\<close>, classes Sphere, KDNode and KDTree); integer fields are mathematical
  integers, and every place where the C++ arithmetic could leave the range of its type is
  written out in the function that does the arithmetic.
\<close>

type_synonym Vec3 = "real list"

text \<open>Modelled from the spec: the ball of section 3, \<^verbatim>\<open>(center, radius)\<close>, with the field names
  of the binding of Sphere.\<close>

record Sphere =
  sphere_r :: real
  center :: Vec3

text \<open>Modelled from the spec: the tree node of section 3,
  \<^verbatim>\<open>(idx, start, end, depth, height, is_leaf, bounds, children)\<close>, with the field names of the
  binding of KDNode. The field \<^verbatim>\<open>end\<close> is written \<open>end'\<close>.\<close>

record KDNode =
  start :: int
  end' :: int
  bounds :: Sphere
  is_leaf :: bool
  idx :: int
  height :: int
  depth :: int
  children :: "int list"

text \<open>Two nodes used to evaluate the definitions on concrete inputs: a node owning the three
  points \<open>[0, 3)\<close> and an empty node.\<close>

definition node_three :: KDNode where
  "node_three = \<lparr>start = 0, end' = 3, bounds = \<lparr>sphere_r = 1, center = [0, 0, 0]\<rparr>,
     is_leaf = True, idx = 7, height = 0, depth = 1, children = []\<rparr>"

definition node_empty :: KDNode where
  "node_empty = \<lparr>start = 3, end' = 3, bounds = \<lparr>sphere_r = 0, center = [0, 0, 0]\<rparr>,
     is_leaf = True, idx = 9, height = 0, depth = 1, children = []\<rparr>"

section \<open>Matrix-free operations (fmm/fmm\_impl.hpp)\<close>

record MatrixFreeOp =
  obs_n_idx :: "int list"
  src_n_idx :: "int list"

text \<open>\<^verbatim>\<open>MatrixFreeOp::insert\<close>: the early return leaves the operation as it is; otherwise one
  entry is pushed to the back of each vector. The test \<^verbatim>\<open>end - start == 0\<close> holds exactly when
  the two fields are equal, in signed and in unsigned arithmetic alike.\<close>

definition MatrixFreeOp_insert :: "MatrixFreeOp \<Rightarrow> KDNode \<Rightarrow> KDNode \<Rightarrow> MatrixFreeOp" where
  "MatrixFreeOp_insert op obs_n src_n =
     (if end' obs_n - start obs_n = 0 \<or> end' src_n - start src_n = 0 then op
      else op\<lparr>obs_n_idx := obs_n_idx op @ [idx obs_n],
              src_n_idx := src_n_idx op @ [idx src_n]\<rparr>)"

text \<open>\<^verbatim>\<open>CompressedInteractionList\<close>: the three vectors of \<^verbatim>\<open>int\<close>.\<close>

record CompressedInteractionList =
  obs_n_idxs :: "int list"
  obs_src_starts :: "int list"
  src_n_idxs :: "int list"

text \<open>Modelled from the spec: the tree of section 6, with the fields the binding of KDTree
  exposes; \<^verbatim>\<open>count_interactions\<close> reads \<^verbatim>\<open>nodes\<close> only.\<close>

record KDTree =
  nodes :: "KDNode list"
  pts :: "Vec3 list"
  normals :: "Vec3 list"
  orig_idxs :: "nat list"
  max_height :: int

text \<open>
  Reading a \<^verbatim>\<open>std::vector\<close> with \<^verbatim>\<open>operator[]\<close> outside its bounds, and signed arithmetic
  whose result does not fit \<^verbatim>\<open>int\<close>, are undefined behaviour: the model returns \<open>None\<close> there.
  An index of type \<^verbatim>\<open>int\<close> is converted to \<^verbatim>\<open>size_t\<close>, so a negative one is out of bounds.
\<close>

definition vec_at :: "'a list \<Rightarrow> int \<Rightarrow> 'a option" where
  "vec_at v i = (if 0 \<le> i \<and> i < int (length v) then Some (v ! nat i) else None)"

definition in_int :: "int \<Rightarrow> bool" where
  "in_int x \<longleftrightarrow> - (2 ^ 31) \<le> x \<and> x < 2 ^ 31"

definition as_int :: "int \<Rightarrow> int option" where
  "as_int x = (if in_int x then Some x else None)"

text \<open>
  \<^verbatim>\<open>count_interactions\<close>. The inner loop runs \<open>j\<close> from \<^verbatim>\<open>obs_src_starts[i]\<close> while
  \<^verbatim>\<open>j < obs_src_starts[i + 1]\<close>; the product \<^verbatim>\<open>n_obs * n_src\<close> is computed in \<^verbatim>\<open>int\<close> and then
  added to the \<^verbatim>\<open>size_t\<close> counter, which wraps modulo \<open>2 ^ 64\<close>.
\<close>

function count_interactions_inner ::
  "CompressedInteractionList \<Rightarrow> KDTree \<Rightarrow> bool \<Rightarrow> int \<Rightarrow> nat \<Rightarrow> int \<Rightarrow> int \<Rightarrow> int \<Rightarrow> int option"
where
  "count_interactions_inner list src_tree src_surf n_surf i n_obs j n =
     do {
       hi \<leftarrow> vec_at (obs_src_starts list) (int i + 1);
       if j < hi then do {
         src_n_idx \<leftarrow> vec_at (src_n_idxs list) j;
         n_src \<leftarrow> (if \<not> src_surf
                    then do { nd \<leftarrow> vec_at (nodes src_tree) src_n_idx;
                              as_int (end' nd - start nd) }
                    else Some n_surf);
         p \<leftarrow> as_int (n_obs * n_src);
         count_interactions_inner list src_tree src_surf n_surf i n_obs (j + 1)
           ((n + p) mod 2 ^ 64)
       } else Some n
     }"
  by pat_completeness auto
termination
  by (relation "measure (\<lambda>(list, src_tree, src_surf, n_surf, i, n_obs, j, n).
        nat (the (vec_at (obs_src_starts list) (int i + 1)) - j))") auto

declare count_interactions_inner.simps [simp del]

function count_interactions_outer ::
  "CompressedInteractionList \<Rightarrow> KDTree \<Rightarrow> KDTree \<Rightarrow> bool \<Rightarrow> bool \<Rightarrow> int \<Rightarrow> nat \<Rightarrow> int \<Rightarrow> int option"
where
  "count_interactions_outer list obs_tree src_tree obs_surf src_surf n_surf i n =
     (if i < length (obs_n_idxs list) then do {
        obs_n_idx \<leftarrow> vec_at (obs_n_idxs list) (int i);
        n_obs \<leftarrow> (if \<not> obs_surf
                   then do { nd \<leftarrow> vec_at (nodes obs_tree) obs_n_idx;
                             as_int (end' nd - start nd) }
                   else Some n_surf);
        j \<leftarrow> vec_at (obs_src_starts list) (int i);
        n' \<leftarrow> count_interactions_inner list src_tree src_surf n_surf i n_obs j n;
        count_interactions_outer list obs_tree src_tree obs_surf src_surf n_surf (i + 1) n'
      } else Some n)"
  by pat_completeness auto
termination
  by (relation "measure (\<lambda>(list, obs_tree, src_tree, obs_surf, src_surf, n_surf, i, n).
        length (obs_n_idxs list) - i)") auto

declare count_interactions_outer.simps [simp del]

definition count_interactions ::
  "CompressedInteractionList \<Rightarrow> KDTree \<Rightarrow> KDTree \<Rightarrow> bool \<Rightarrow> bool \<Rightarrow> int \<Rightarrow> int option"
where
  "count_interactions list obs_tree src_tree obs_surf src_surf n_surf =
     count_interactions_outer list obs_tree src_tree obs_surf src_surf n_surf 0 0"


text \<open>The quantities the count is stated with: the number of observation points of entry
  \<open>i\<close>, the number of source points of entry \<open>j\<close>, and the inputs on which every read is in
  bounds and every \<^verbatim>\<open>int\<close> result fits.\<close>

definition n_obs_of :: "CompressedInteractionList \<Rightarrow> KDTree \<Rightarrow> bool \<Rightarrow> int \<Rightarrow> nat \<Rightarrow> int" where
  "n_obs_of list obs_tree obs_surf n_surf i =
     (if obs_surf then n_surf
      else end' (nodes obs_tree ! nat (obs_n_idxs list ! i))
           - start (nodes obs_tree ! nat (obs_n_idxs list ! i)))"

definition n_src_of :: "CompressedInteractionList \<Rightarrow> KDTree \<Rightarrow> bool \<Rightarrow> int \<Rightarrow> int \<Rightarrow> int" where
  "n_src_of list src_tree src_surf n_surf j =
     (if src_surf then n_surf
      else end' (nodes src_tree ! nat (src_n_idxs list ! nat j))
           - start (nodes src_tree ! nat (src_n_idxs list ! nat j)))"

definition node_idx_ok :: "KDTree \<Rightarrow> int \<Rightarrow> bool" where
  "node_idx_ok tree k \<longleftrightarrow> 0 \<le> k \<and> k < int (length (nodes tree)) \<and>
     in_int (end' (nodes tree ! nat k) - start (nodes tree ! nat k))"

definition count_defined ::
  "CompressedInteractionList \<Rightarrow> KDTree \<Rightarrow> KDTree \<Rightarrow> bool \<Rightarrow> bool \<Rightarrow> int \<Rightarrow> bool"
where
  "count_defined list obs_tree src_tree obs_surf src_surf n_surf \<longleftrightarrow>
     list_all (\<lambda>i.
        i + 1 < length (obs_src_starts list) \<and>
        (obs_surf \<or> node_idx_ok obs_tree (obs_n_idxs list ! i)) \<and>
        list_all (\<lambda>j.
           0 \<le> j \<and> j < int (length (src_n_idxs list)) \<and>
           (src_surf \<or> node_idx_ok src_tree (src_n_idxs list ! nat j)) \<and>
           in_int (n_obs_of list obs_tree obs_surf n_surf i
                   * n_src_of list src_tree src_surf n_surf j))
          [obs_src_starts list ! i .. obs_src_starts list ! (i + 1) - 1])
       [0 ..< length (obs_n_idxs list)]"

text \<open>A tree of three nodes and a list with two observation entries, for evaluation.\<close>

definition ex_tree :: KDTree where
  "ex_tree = \<lparr>nodes = [node_three, node_empty, node_three], pts = [], normals = [], orig_idxs = [], max_height = 0\<rparr>"

definition ex_list :: CompressedInteractionList where
  "ex_list = \<lparr>obs_n_idxs = [0, 2], obs_src_starts = [0, 2, 3], src_n_idxs = [0, 1, 2]\<rparr>"



section \<open>Block-sparse assembly (fast\_assembly, in fmm\_impl.hpp)\<close>

text \<open>Writing through a raw pointer outside the array is undefined behaviour (\<open>None\<close>).\<close>

definition vec_set :: "'a list \<Rightarrow> int \<Rightarrow> 'a \<Rightarrow> 'a list option" where
  "vec_set v i x = (if 0 \<le> i \<and> i < int (length v) then Some (v[nat i := x]) else None)"

text \<open>Storing a \<^verbatim>\<open>size_t\<close> or a \<^verbatim>\<open>long\<close> into an \<^verbatim>\<open>int\<close> keeps the low 32 bits, read as two's
  complement.\<close>

definition int32_of :: "int \<Rightarrow> int" where
  "int32_of x = (x + 2 ^ 31) mod 2 ^ 32 - 2 ^ 31"

text \<open>A counting loop \<^verbatim>\<open>for (size_t i = 0; i < n; i++)\<close> over a state; it stops at the first
  undefined step.\<close>

definition for_up :: "nat \<Rightarrow> (nat \<Rightarrow> 's \<Rightarrow> 's option) \<Rightarrow> 's \<Rightarrow> 's option" where
  "for_up n body s = fold (\<lambda>i acc. Option.bind acc (body i)) [0..<n] (Some s)"

text \<open>\<^verbatim>\<open>make_array\<close> is declared in \<^verbatim>\<open>pybind11_nparray.hpp\<close>, which is not among the sources. The
  contents of a freshly allocated array are not specified, so they are a parameter: \<open>fresh k\<close>
  is what the new array holds at position \<open>k\<close>. \<^verbatim>\<open>std::fill\<close> overwrites the first \<open>n\<close> entries.\<close>

definition make_array :: "(nat \<Rightarrow> 'a) \<Rightarrow> nat \<Rightarrow> 'a list" where
  "make_array fresh n = map fresh [0..<n]"

definition fill :: "'a list \<Rightarrow> nat \<Rightarrow> 'a \<Rightarrow> 'a list" where
  "fill v n x = replicate n x @ drop n v"

text \<open>The first loop: \<^verbatim>\<open>indptr_ptr[rows_ptr[i]]++\<close> for every block.\<close>

definition count_rows :: "int list \<Rightarrow> int list \<Rightarrow> int list option" where
  "count_rows rows indptr =
     for_up (length rows) (\<lambda>i indptr. do {
        r \<leftarrow> vec_at rows (int i);
        x \<leftarrow> vec_at indptr r;
        y \<leftarrow> as_int (x + 1);
        vec_set indptr r y
      }) indptr"

text \<open>The second loop: the running sum \<^verbatim>\<open>cumsum\<close> (a \<^verbatim>\<open>size_t\<close>) replaces each count.\<close>

definition cumsum_rows :: "nat \<Rightarrow> int list \<Rightarrow> (int list \<times> int) option" where
  "cumsum_rows n_row_blocks indptr =
     for_up n_row_blocks (\<lambda>i (indptr, cumsum). do {
        temp \<leftarrow> vec_at indptr (int i);
        indptr \<leftarrow> vec_set indptr (int i) (int32_of cumsum);
        Some (indptr, (cumsum + temp) mod 2 ^ 64)
      }) (indptr, 0)"

text \<open>The third loop, with its inner copy of the \<^verbatim>\<open>blocksize\<close> values of block \<open>n\<close> to the
  position \<^verbatim>\<open>dest\<close> read from \<^verbatim>\<open>indptr_ptr[row]\<close>, which is then incremented.\<close>

definition copy_block :: "nat \<Rightarrow> real list \<Rightarrow> nat \<Rightarrow> int \<Rightarrow> real list \<Rightarrow> real list option" where
  "copy_block blocksize in_data n dest data =
     for_up blocksize (\<lambda>k data. do {
        x \<leftarrow> vec_at in_data (int (n * blocksize + k));
        vec_set data (dest * int blocksize + int k) x
      }) data"

definition scatter_blocks ::
  "nat \<Rightarrow> real list \<Rightarrow> int list \<Rightarrow> int list \<Rightarrow> int list \<times> int list \<times> real list
     \<Rightarrow> (int list \<times> int list \<times> real list) option" where
  "scatter_blocks blocksize in_data rows cols s =
     for_up (length rows) (\<lambda>n (indptr, indices, data). do {
        rw \<leftarrow> vec_at rows (int n);
        let row = int32_of rw;
        dest \<leftarrow> vec_at indptr row;
        c \<leftarrow> vec_at cols (int n);
        indices \<leftarrow> vec_set indices dest (int32_of c);
        data \<leftarrow> copy_block blocksize in_data n dest data;
        x \<leftarrow> vec_at indptr row;
        y \<leftarrow> as_int (x + 1);
        indptr \<leftarrow> vec_set indptr row y;
        Some (indptr, indices, data)
      }) s"

text \<open>The fourth loop shifts \<^verbatim>\<open>indptr\<close> right by one place, over \<open>i \<le> n_row_blocks\<close>.\<close>

definition shift_indptr :: "nat \<Rightarrow> int list \<Rightarrow> (int list \<times> int) option" where
  "shift_indptr n_row_blocks indptr =
     for_up (n_row_blocks + 1) (\<lambda>i (indptr, last). do {
        temp \<leftarrow> vec_at indptr (int i);
        indptr \<leftarrow> vec_set indptr (int i) (int32_of last);
        Some (indptr, temp mod 2 ^ 64)
      }) (indptr, 0)"

text \<open>\<^verbatim>\<open>make_bsr_matrix\<close>: the division \<^verbatim>\<open>n_rows / blockrows\<close> by zero is undefined; the result
  is the tuple \<^verbatim>\<open>(data, indices, indptr)\<close>.\<close>

definition make_bsr_matrix ::
  "(nat \<Rightarrow> int) \<Rightarrow> (nat \<Rightarrow> int) \<Rightarrow> (nat \<Rightarrow> real) \<Rightarrow>
   nat \<Rightarrow> nat \<Rightarrow> nat \<Rightarrow> nat \<Rightarrow> real list \<Rightarrow> int list \<Rightarrow> int list
     \<Rightarrow> (real list \<times> int list \<times> int list) option" where
  "make_bsr_matrix fresh_indptr fresh_indices fresh_data
      n_rows n_cols blockrows blockcols in_data rows cols =
     (if blockrows = 0 then None
      else do {
        let n_row_blocks = n_rows div blockrows;
        let n_blocks = length rows;
        let blocksize = blockrows * blockcols;
        let indptr = make_array fresh_indptr (n_row_blocks + 1);
        let indices = make_array fresh_indices n_blocks;
        let data = make_array fresh_data (n_blocks * blocksize);
        let indptr = fill indptr n_row_blocks 0;
        indptr \<leftarrow> count_rows rows indptr;
        (indptr, cumsum) \<leftarrow> cumsum_rows n_row_blocks indptr;
        indptr \<leftarrow> vec_set indptr (int n_row_blocks) (int32_of (int n_blocks));
        (indptr, indices, data) \<leftarrow> scatter_blocks blocksize in_data rows cols (indptr, indices, data);
        (indptr, last) \<leftarrow> shift_indptr n_row_blocks indptr;
        Some (data, indices, indptr)
      })"


text \<open>The quantities the result is stated with: the number of blocks of row \<open>r\<close>, the number
  of blocks of rows below \<open>r\<close>, and the slot of block \<open>n\<close>: the blocks of smaller rows come
  first, then the earlier blocks of the same row.\<close>

definition cnt :: "int list \<Rightarrow> int \<Rightarrow> int" where
  "cnt rows r = int (length (filter (\<lambda>x. x = r) rows))"

definition offs :: "int list \<Rightarrow> int \<Rightarrow> int" where
  "offs rows r = int (length (filter (\<lambda>x. x < r) rows))"

definition slot :: "int list \<Rightarrow> nat \<Rightarrow> int" where
  "slot rows n = offs rows (rows ! n) + cnt (take n rows) (rows ! n)"

section \<open>Python binding (\_fmm/\_fmm.cpp)\<close>

text \<open>An exception leaves the binding as an error value; \<open>undefined_behaviour\<close> stands for a
  run that the language leaves undefined (a store outside the buffer, signed overflow).\<close>

datatype error = runtime_error string | undefined_behaviour

definition on_ok :: "error + 'a \<Rightarrow> ('a \<Rightarrow> error + 'b) \<Rightarrow> error + 'b" where
  "on_ok r k = (case r of Inl e \<Rightarrow> Inl e | Inr x \<Rightarrow> k x)"

text \<open>\<^verbatim>\<open>NPArrayD\<close> is declared in \<^verbatim>\<open>pybind11_nparray.hpp\<close>, which is not among the sources: an
  array of doubles is its shape and its flat buffer (what \<^verbatim>\<open>request().ptr\<close> points to);
  \<^verbatim>\<open>ndim\<close> is the number of dimensions.\<close>

record NPArrayD =
  shape :: "nat list"
  buf :: "real list"

definition ndim :: "NPArrayD \<Rightarrow> nat" where
  "ndim arr = length (shape arr)"

text \<open>\<^verbatim>\<open>check_shape\<close>: \<^verbatim>\<open>shape[1]\<close> is read only when \<^verbatim>\<open>ndim\<close> is 2.\<close>

definition check_shape :: "NPArrayD \<Rightarrow> error + unit" where
  "check_shape arr =
     (if ndim arr \<noteq> 2 \<or> shape arr ! 1 \<noteq> 3
      then Inl (runtime_error ''parameter requires n x 3 array.'')
      else Inr ())"

text \<open>The \<^verbatim>\<open>__init__\<close> of KDTree: both arrays are checked, then the constructor is called with
  the two buffers, the number of rows of the points and \<^verbatim>\<open>n_per_cell\<close>. The constructor is in
  \<^verbatim>\<open>kdtree.cpp\<close>, which is not among the sources, so it is the parameter \<open>KDTree_new\<close>.\<close>

definition KDTree_init ::
  "(real list \<Rightarrow> real list \<Rightarrow> nat \<Rightarrow> nat \<Rightarrow> error + 't) \<Rightarrow> NPArrayD \<Rightarrow> NPArrayD \<Rightarrow> nat \<Rightarrow> error + 't"
where
  "KDTree_init KDTree_new np_pts np_normals n_per_cell =
     on_ok (check_shape np_pts) (\<lambda>_.
     on_ok (check_shape np_normals) (\<lambda>_.
       KDTree_new (buf np_pts) (buf np_normals) (shape np_pts ! 0) n_per_cell))"

text \<open>The \<^verbatim>\<open>eval\<close> of FMMMat: the buffer of \<open>v\<close> is handed to \<^verbatim>\<open>FMMMat::eval\<close> (the parameter
  \<open>eval_impl\<close>) and the result is wrapped by \<^verbatim>\<open>array_from_vector\<close> (a parameter as well, from
  \<^verbatim>\<open>pybind11_nparray.hpp\<close>).\<close>

definition FMMMat_eval ::
  "(real list \<Rightarrow> 'r) \<Rightarrow> ('m \<Rightarrow> real list \<Rightarrow> error + real list) \<Rightarrow> 'm \<Rightarrow> NPArrayD \<Rightarrow> error + 'r"
where
  "FMMMat_eval array_from_vector eval_impl m v =
     on_ok (eval_impl m (buf v)) (\<lambda>out. Inr (array_from_vector out))"





text \<open>An array that passes \<^verbatim>\<open>check_shape\<close>, and inputs for evaluation.\<close>

definition shape_ok :: "NPArrayD \<Rightarrow> bool" where
  "shape_ok arr \<longleftrightarrow> ndim arr = 2 \<and> shape arr ! 1 = 3"


definition ex_pts1 :: NPArrayD where
  "ex_pts1 = \<lparr>shape = [1, 3], buf = [0, 0, 1]\<rparr>"

definition ex_pts2 :: NPArrayD where
  "ex_pts2 = \<lparr>shape = [2, 3], buf = [0, 0, 0, 1, 1, 1]\<rparr>"

definition ex_flat :: NPArrayD where
  "ex_flat = \<lparr>shape = [3], buf = [0, 0, 1]\<rparr>"

section \<open>Tree builder (section 4.1 of the specification)\<close>

text \<open>Modelled from the spec: the error kinds of section 7. The constructor of KDTree
  (\<^verbatim>\<open>kdtree.cpp\<close>) is not among the sources; the builder below follows section 4.1.\<close>

datatype fmm_error = InvalidConfig | ShapeMismatch | NumericallySingular | KernelError

text \<open>Modelled from the spec: a point travels with its normal and its original position
  (section 3: \<^verbatim>\<open>orig_idx[new_position] = original_position\<close>).\<close>

type_synonym item = "nat \<times> Vec3 \<times> Vec3"

text \<open>Modelled from the spec: the point of an item.\<close>

definition item_pt :: "item \<Rightarrow> Vec3" where
  "item_pt it = fst (snd it)"

text \<open>Modelled from the spec: the normal of an item, which travels with its point.\<close>

definition item_normal :: "item \<Rightarrow> Vec3" where
  "item_normal it = snd (snd it)"

text \<open>Modelled from the spec: the coordinate of the point of an item along axis \<open>k\<close>.\<close>

definition coord :: "nat \<Rightarrow> item \<Rightarrow> real" where
  "coord k it = item_pt it ! k"

text \<open>Modelled from the spec: the extent of the points of a node along each axis (points have
  three coordinates, as the binding requires), the ball of a node, and the splitting axis, "the
  longest extent of the actual points". The spec asks of the ball containment only; the ball
  here is centred at the midpoint of the bounding box of the points, with half of the diagonal
  of the box as its radius.\<close>

definition axes :: "nat list" where
  "axes = [0, 1, 2]"

text \<open>Modelled from the spec: the least coordinate of the points along axis \<open>k\<close> (0 when there
  is no point).\<close>

definition coord_min :: "nat \<Rightarrow> item list \<Rightarrow> real" where
  "coord_min k its = (if its = [] then 0 else Min (set (map (coord k) its)))"

text \<open>Modelled from the spec: the greatest coordinate of the points along axis \<open>k\<close>.\<close>

definition coord_max :: "nat \<Rightarrow> item list \<Rightarrow> real" where
  "coord_max k its = (if its = [] then 0 else Max (set (map (coord k) its)))"

text \<open>Modelled from the spec: the extent of the actual points along axis \<open>k\<close>.\<close>

definition extent :: "nat \<Rightarrow> item list \<Rightarrow> real" where
  "extent k its = coord_max k its - coord_min k its"

text \<open>Modelled from the spec: the midpoint of the points along axis \<open>k\<close>.\<close>

definition midpoint :: "nat \<Rightarrow> item list \<Rightarrow> real" where
  "midpoint k its = (coord_min k its + coord_max k its) / 2"

text \<open>Modelled from the spec: the ball of a node, around the bounding box of its points.\<close>

definition bounding_ball :: "item list \<Rightarrow> Sphere" where
  "bounding_ball its =
     \<lparr>sphere_r = sqrt (\<Sum>k\<leftarrow>axes. (extent k its / 2)\<^sup>2),
      center = map (\<lambda>k. midpoint k its) axes\<rparr>"

text \<open>Modelled from the spec: the minimum-radius floor of section 4.1 (\<^verbatim>\<open>1e-30\<close>).\<close>

definition min_radius :: real where
  "min_radius = 1 / 10 ^ 30"

text \<open>Modelled from the spec: the splitting axis, the first axis of longest extent.\<close>

definition split_axis :: "item list \<Rightarrow> nat" where
  "split_axis its = fold (\<lambda>k best. if extent best its < extent k its then k else best) axes 0"

text \<open>Modelled from the spec: the partition "by sign relative to the midpoint" along the
  splitting axis.\<close>

definition left_items :: "item list \<Rightarrow> item list" where
  "left_items its = filter (\<lambda>it. coord (split_axis its) it < midpoint (split_axis its) its) its"

text \<open>Modelled from the spec: the other side of the partition.\<close>

definition right_items :: "item list \<Rightarrow> item list" where
  "right_items its = filter (\<lambda>it. \<not> coord (split_axis its) it < midpoint (split_axis its) its) its"

text \<open>Modelled from the spec: a node as the recursion creates it, with the range start, the
  (reordered) points it owns, its depth, its ball and its children; the node array is laid out
  from it afterwards.\<close>

datatype ktree =
  KT (kt_start: nat) (kt_items: "item list") (kt_depth: nat) (kt_leaf: bool)
     (kt_bounds: Sphere) (kt_children: "ktree list")

text \<open>The split of a node that is not a leaf is proper: both sides are smaller than the node.
  The recursion of the builder ends for this reason.\<close>

lemma coord_min_le_max: "coord_min k its \<le> coord_max k its"
  by (simp add: coord_min_def coord_max_def)

lemma extent_nonneg: "0 \<le> extent k its"
  using coord_min_le_max[of k its] by (simp add: extent_def)

lemma split_axis_max: "k \<in> set axes \<Longrightarrow> extent k its \<le> extent (split_axis its) its"
  by (auto simp: split_axis_def axes_def)

lemma radius_pos_extent:
  assumes "0 < sphere_r (bounding_ball its)"
  shows "0 < extent (split_axis its) its"
proof (rule ccontr)
  assume "\<not> 0 < extent (split_axis its) its"
  then have "extent k its = 0" if "k \<in> set axes" for k
    using split_axis_max[OF that, of its] extent_nonneg[of k its] by linarith
  then have "sphere_r (bounding_ball its) = 0"
    by (simp add: bounding_ball_def axes_def)
  with assms show False by simp
qed

lemma coord_min_attained: "its \<noteq> [] \<Longrightarrow> \<exists>it \<in> set its. coord k it = coord_min k its"
proof -
  assume "its \<noteq> []"
  then have "Min (coord k ` set its) \<in> coord k ` set its"
    by (intro Min_in) auto
  then obtain it where "it \<in> set its" "coord k it = Min (coord k ` set its)"
    by (auto elim: imageE)
  then show ?thesis using \<open>its \<noteq> []\<close> by (auto simp: coord_min_def)
qed

lemma coord_max_attained: "its \<noteq> [] \<Longrightarrow> \<exists>it \<in> set its. coord k it = coord_max k its"
proof -
  assume "its \<noteq> []"
  then have "Max (coord k ` set its) \<in> coord k ` set its"
    by (intro Max_in) auto
  then obtain it where "it \<in> set its" "coord k it = Max (coord k ` set its)"
    by (auto elim: imageE)
  then show ?thesis using \<open>its \<noteq> []\<close> by (auto simp: coord_max_def)
qed

lemma split_proper:
  assumes "min_radius < sphere_r (bounding_ball its)"
  shows "length (left_items its) < length its" "length (right_items its) < length its"
    "left_items its \<noteq> []" "right_items its \<noteq> []"
proof -
  let ?k = "split_axis its"
  have "0 < sphere_r (bounding_ball its)" using assms by (simp add: min_radius_def)
  then have ext: "0 < extent ?k its" by (rule radius_pos_extent)
  then have ne: "its \<noteq> []" by (auto simp: extent_def coord_min_def coord_max_def)
  from ext have lt: "coord_min ?k its < midpoint ?k its" "midpoint ?k its < coord_max ?k its"
    by (simp_all add: extent_def midpoint_def)
  obtain a where a: "a \<in> set its" "coord ?k a = coord_min ?k its" using coord_min_attained[OF ne] by blast
  obtain b where b: "b \<in> set its" "coord ?k b = coord_max ?k its" using coord_max_attained[OF ne] by blast
  have al: "a \<in> set (left_items its)" using a lt by (simp add: left_items_def)
  have br: "b \<in> set (right_items its)" using b lt by (simp add: right_items_def)
  have bl: "b \<notin> set (left_items its)" using b lt by (simp add: left_items_def)
  have ar: "a \<notin> set (right_items its)" using a lt by (simp add: right_items_def)
  show "left_items its \<noteq> []" using al by auto
  show "right_items its \<noteq> []" using br by auto
  show "length (left_items its) < length its"
    unfolding left_items_def using b bl unfolding left_items_def
    by (intro length_filter_less) auto
  show "length (right_items its) < length its"
    unfolding right_items_def using a ar unfolding right_items_def
    by (intro length_filter_less) auto
qed

text \<open>Modelled from the spec: the recursive partition of section 4.1. A node is a leaf when it
  holds at most \<open>cap\<close> points or when its radius is at most the floor; otherwise its points are
  split, empty children are omitted, and the children are built one level deeper.\<close>

function build :: "nat \<Rightarrow> nat \<Rightarrow> nat \<Rightarrow> item list \<Rightarrow> ktree" where
  "build cap s d its =
     (if length its \<le> cap \<or> sphere_r (bounding_ball its) \<le> min_radius
      then KT s its d True (bounding_ball its) []
      else
        let cl = (if left_items its = [] then []
                  else [build cap s (d + 1) (left_items its)]);
            cr = (if right_items its = [] then []
                  else [build cap (s + length (left_items its)) (d + 1) (right_items its)])
        in KT s (concat (map kt_items (cl @ cr))) d False (bounding_ball its) (cl @ cr))"
  by pat_completeness auto
termination
  by (relation "measure (\<lambda>(cap, s, d, its). length its)") (auto simp: split_proper)

declare build.simps [simp del]

text \<open>Modelled from the spec: the node array is in creation order (a node before its
  descendants), with \<^verbatim>\<open>idx\<close> the position in the array, \<^verbatim>\<open>children\<close> the positions of the children,
  and \<^verbatim>\<open>height\<close> filled bottom-up. First the number of nodes of a subtree.\<close>

fun kt_size :: "ktree \<Rightarrow> nat" where
  "kt_size (KT s its d l b cs) = Suc (sum_list (map kt_size cs))"

text \<open>Modelled from the spec: \<^verbatim>\<open>height(leaf) = 0\<close>, \<^verbatim>\<open>height(n) = 1 + max(height(c))\<close>.\<close>

fun kt_height :: "ktree \<Rightarrow> nat" where
  "kt_height (KT s its d l b cs) =
     (if cs = [] then 0 else 1 + fold max (map kt_height cs) 0)"

text \<open>Modelled from the spec: the positions of the children in the node array, the first child
  right after its parent and each further child after the subtree of the one before.\<close>

fun child_idxs :: "nat \<Rightarrow> ktree list \<Rightarrow> nat list" where
  "child_idxs i [] = []"
| "child_idxs i (c # cs) = i # child_idxs (i + kt_size c) cs"

text \<open>Modelled from the spec: the node array of a subtree whose root has position \<open>i\<close>.\<close>

fun to_nodes :: "nat \<Rightarrow> ktree \<Rightarrow> KDNode list"
  and to_nodes_list :: "nat \<Rightarrow> ktree list \<Rightarrow> KDNode list" where
  "to_nodes i (KT s its d l b cs) =
     \<lparr>start = int s, end' = int (s + length its), bounds = b, is_leaf = l, idx = int i,
      height = int (kt_height (KT s its d l b cs)), depth = int d,
      children = map int (child_idxs (i + 1) cs)\<rparr> # to_nodes_list (i + 1) cs"
| "to_nodes_list i [] = []"
| "to_nodes_list i (c # cs) = to_nodes i c @ to_nodes_list (i + kt_size c) cs"

text \<open>Modelled from the spec: \<^verbatim>\<open>build_tree(points, normals, leaf_capacity)\<close> of section 6, with
  the \<^verbatim>\<open>ShapeMismatch\<close> of section 7.\<close>

definition build_tree :: "Vec3 list \<Rightarrow> Vec3 list \<Rightarrow> nat \<Rightarrow> fmm_error + KDTree" where
  "build_tree points nrmls leaf_capacity =
     (if length nrmls \<noteq> length points then Inl ShapeMismatch
      else
        let t = build leaf_capacity 0 0 (zip [0..<length points] (zip points nrmls))
        in Inr \<lparr>nodes = to_nodes 0 t,
                pts = map item_pt (kt_items t),
                normals = map item_normal (kt_items t),
                orig_idxs = map fst (kt_items t),
                max_height = int (kt_height t)\<rparr>)"



text \<open>Three points, two of them at the same place, and the tree built from them with
  leaf capacity 1.\<close>

definition ex_points :: "Vec3 list" where
  "ex_points = [[0, 0, 0], [0, 0, 0], [2, 0, 0]]"

definition ex_normals :: "Vec3 list" where
  "ex_normals = [[0, 0, 1], [0, 0, 1], [0, 0, 1]]"

definition ex_built :: KDTree where
  "ex_built =
     \<lparr>nodes =
        [\<lparr>start = 0, end' = 3, bounds = \<lparr>sphere_r = 1, center = [1, 0, 0]\<rparr>,
          is_leaf = False, idx = 0, height = 1, depth = 0, children = [1, 2]\<rparr>,
         \<lparr>start = 0, end' = 2, bounds = \<lparr>sphere_r = 0, center = [0, 0, 0]\<rparr>,
          is_leaf = True, idx = 1, height = 0, depth = 1, children = []\<rparr>,
         \<lparr>start = 2, end' = 3, bounds = \<lparr>sphere_r = 0, center = [2, 0, 0]\<rparr>,
          is_leaf = True, idx = 2, height = 0, depth = 1, children = []\<rparr>],
      pts = [[0, 0, 0], [0, 0, 0], [2, 0, 0]],
      normals = [[0, 0, 1], [0, 0, 1], [0, 0, 1]],
      orig_idxs = [0, 1, 2],
      max_height = 1\<rparr>"

section \<open>Dual-tree traversal (section 4.3 of the specification)\<close>

text \<open>Modelled from the spec: \<^verbatim>\<open>fmmmmmmm\<close> is declared in \<^verbatim>\<open>fmm/fmm_impl.hpp\<close> and defined in
  \<^verbatim>\<open>fmm_impl.cpp\<close>, which is not among the sources. The configuration is the one of section 6
  (the struct of the sources has \<^verbatim>\<open>inner_r\<close>, \<^verbatim>\<open>outer_r\<close>, \<^verbatim>\<open>order\<close>, \<^verbatim>\<open>kernel\<close> and \<^verbatim>\<open>params\<close> only);
  its fields carry the prefix \<open>cfg\<close>.\<close>

record FMMConfig =
  cfg_inner_r :: real
  cfg_outer_r :: real
  cfg_order :: int
  cfg_kernel_name :: string
  cfg_params :: "real list"
  cfg_mac :: real
  cfg_leaf_capacity :: int
  cfg_svd_threshold :: real

text \<open>Modelled from the spec: the conditions of \<^verbatim>\<open>InvalidConfig\<close> in section 7; \<open>kernels\<close> are the
  names of the known kernels. The quotient \<open>1 / (outer_r - 1)\<close> has no value at \<open>outer_r = 1\<close>
  (in floating point it is infinite there, and no \<open>mac\<close> reaches it).\<close>

definition invalid_config :: "string list \<Rightarrow> FMMConfig \<Rightarrow> bool" where
  "invalid_config kernels cfg \<longleftrightarrow>
     (cfg_outer_r cfg \<noteq> 1 \<and> cfg_mac cfg \<ge> 1 / (cfg_outer_r cfg - 1)) \<or>
     cfg_outer_r cfg \<le> cfg_inner_r cfg \<or>
     cfg_kernel_name cfg \<notin> set kernels \<or>
     cfg_order cfg < 2 \<or>
     cfg_leaf_capacity cfg < 1"

text \<open>Modelled from the spec: the distance \<open>d = ||c_o - c_s||\<close> of two centres.\<close>

definition vec_dist :: "Vec3 \<Rightarrow> Vec3 \<Rightarrow> real" where
  "vec_dist a b = sqrt (\<Sum>(x, y)\<leftarrow>zip a b. (x - y)\<^sup>2)"

text \<open>Modelled from the spec: the MAC test of section 4.3. A pair is well-separated iff
  \<open>d > (r_o + r_s) / \<theta>\<close>; the spec gives \<open>max(r_o, r_s) / (d - min(r_o, r_s)) < \<theta>\<close> as the
  formulation of the source and asks for the stricter of the two where they differ, so both
  are required.\<close>

definition well_separated :: "real \<Rightarrow> KDNode \<Rightarrow> KDNode \<Rightarrow> bool" where
  "well_separated \<theta> obs_n src_n \<longleftrightarrow>
     vec_dist (center (bounds obs_n)) (center (bounds src_n))
       > (sphere_r (bounds obs_n) + sphere_r (bounds src_n)) / \<theta> \<and>
     max (sphere_r (bounds obs_n)) (sphere_r (bounds src_n))
       / (vec_dist (center (bounds obs_n)) (center (bounds src_n))
          - min (sphere_r (bounds obs_n)) (sphere_r (bounds src_n))) < \<theta>"

text \<open>The four interaction lists of \<^verbatim>\<open>FMMMat\<close> (\<^verbatim>\<open>fmm/fmm_impl.hpp\<close>) that the traversal
  fills; the surfaces and the operators of the passes are numerical and are left out.\<close>

record FMMMat =
  p2p :: MatrixFreeOp
  m2p :: MatrixFreeOp
  p2l :: MatrixFreeOp
  m2l :: MatrixFreeOp

text \<open>Modelled from the spec: the recursion of section 4.3 over the two node arrays, from the
  two roots. A well-separated pair goes to M2L and ends the descent; two leaves go to P2P;
  otherwise the node of larger radius is descended (the source on a tie). Once one side is a
  leaf only the other side is descended, and a pair that becomes well-separated then goes to
  M2P (observation leaf) or P2L (source leaf). Every list is filled by \<^verbatim>\<open>MatrixFreeOp::insert\<close>.
  The fuel bounds the depth of the descent; \<open>None\<close> is a descent that leaves the arrays or does
  not end within the fuel.\<close>

datatype descent = Free | ObsLeaf | SrcLeaf

text \<open>Modelled from the spec: the recursion of section 4.3; \<open>oi\<close> and \<open>si\<close> are the positions of the
  observation node and of the source node.\<close>

fun traverse ::
  "nat \<Rightarrow> real \<Rightarrow> KDTree \<Rightarrow> KDTree \<Rightarrow> descent \<Rightarrow> int \<Rightarrow> int \<Rightarrow> FMMMat \<Rightarrow> FMMMat option"
where
  "traverse 0 \<theta> ot st md oi si mat = None"
| "traverse (Suc fuel) \<theta> ot st md oi si mat =
     (case (vec_at (nodes ot) oi, vec_at (nodes st) si) of
        (Some obs_n, Some src_n) \<Rightarrow>
          if well_separated \<theta> obs_n src_n then
            (case md of
               Free \<Rightarrow> Some (mat\<lparr>m2l := MatrixFreeOp_insert (m2l mat) obs_n src_n\<rparr>)
             | ObsLeaf \<Rightarrow> Some (mat\<lparr>m2p := MatrixFreeOp_insert (m2p mat) obs_n src_n\<rparr>)
             | SrcLeaf \<Rightarrow> Some (mat\<lparr>p2l := MatrixFreeOp_insert (p2l mat) obs_n src_n\<rparr>))
          else if is_leaf obs_n \<and> is_leaf src_n then
            Some (mat\<lparr>p2p := MatrixFreeOp_insert (p2p mat) obs_n src_n\<rparr>)
          else if is_leaf obs_n then
            fold (\<lambda>c r. Option.bind r (traverse fuel \<theta> ot st ObsLeaf oi c)) (children src_n) (Some mat)
          else if is_leaf src_n then
            fold (\<lambda>c r. Option.bind r (traverse fuel \<theta> ot st SrcLeaf c si)) (children obs_n) (Some mat)
          else if sphere_r (bounds src_n) < sphere_r (bounds obs_n) then
            fold (\<lambda>c r. Option.bind r (traverse fuel \<theta> ot st md c si)) (children obs_n) (Some mat)
          else
            fold (\<lambda>c r. Option.bind r (traverse fuel \<theta> ot st md oi c)) (children src_n) (Some mat)
      | _ \<Rightarrow> None)"

definition empty_op :: MatrixFreeOp where
  "empty_op = \<lparr>obs_n_idx = [], src_n_idx = []\<rparr>"

text \<open>Modelled from the spec: \<^verbatim>\<open>build_fmm\<close> of section 6, as far as the configuration check,
  the shape check and the interaction lists go. The depth of a descent in node arrays in
  creation order is below the sum of their lengths.\<close>

definition build_fmm ::
  "string list \<Rightarrow> KDTree \<Rightarrow> Vec3 list \<Rightarrow> KDTree \<Rightarrow> Vec3 list \<Rightarrow> FMMConfig
     \<Rightarrow> (fmm_error + FMMMat) option"
where
  "build_fmm kernels ot obs_nrmls st src_nrmls cfg =
     (if invalid_config kernels cfg then Some (Inl InvalidConfig)
      else if length obs_nrmls \<noteq> length (pts ot) \<or> length src_nrmls \<noteq> length (pts st)
      then Some (Inl ShapeMismatch)
      else map_option Inr
        (traverse (length (nodes ot) + length (nodes st)) (cfg_mac cfg) ot st Free 0 0
           \<lparr>p2p = empty_op, m2p = empty_op, p2l = empty_op, m2l = empty_op\<rparr>))"


text \<open>The property of an M2L list that the traversal maintains, and node arrays in creation
  order: every child stands after its parent.\<close>

definition m2l_ok :: "real \<Rightarrow> KDTree \<Rightarrow> KDTree \<Rightarrow> MatrixFreeOp \<Rightarrow> bool" where
  "m2l_ok \<theta> ot st op \<longleftrightarrow>
     length (obs_n_idx op) = length (src_n_idx op) \<and>
     (\<forall>k < length (obs_n_idx op).
        \<exists>obs_n \<in> set (nodes ot). \<exists>src_n \<in> set (nodes st).
          idx obs_n = obs_n_idx op ! k \<and> idx src_n = src_n_idx op ! k \<and>
          vec_dist (center (bounds obs_n)) (center (bounds src_n))
            > (sphere_r (bounds obs_n) + sphere_r (bounds src_n)) / \<theta>)"

text \<open>Modelled from the spec: a node array in creation order (section 3).\<close>

definition preorder_tree :: "KDTree \<Rightarrow> bool" where
  "preorder_tree t \<longleftrightarrow>
     (\<forall>i < length (nodes t). \<forall>c \<in> set (children (nodes t ! i)).
        int i < c \<and> c < int (length (nodes t)))"

text \<open>One observation point far from the three source points above, and a configuration.\<close>

definition ex_obs_tree :: KDTree where
  "ex_obs_tree =
     \<lparr>nodes = [\<lparr>start = 0, end' = 1, bounds = \<lparr>sphere_r = 0, center = [10, 0, 0]\<rparr>,
                 is_leaf = True, idx = 0, height = 0, depth = 0, children = []\<rparr>],
      pts = [[10, 0, 0]], normals = [[0, 0, 1]], orig_idxs = [0], max_height = 0\<rparr>"

definition ex_cfg :: FMMConfig where
  "ex_cfg = \<lparr>cfg_inner_r = 11 / 10, cfg_outer_r = 29 / 10, cfg_order = 8,
     cfg_kernel_name = ''inv_r'', cfg_params = [], cfg_mac = 2 / 5, cfg_leaf_capacity = 1,
     cfg_svd_threshold = 0\<rparr>"

definition ex_fmm :: FMMMat where
  "ex_fmm = \<lparr>p2p = empty_op, m2p = empty_op, p2l = empty_op,
     m2l = \<lparr>obs_n_idx = [0], src_n_idx = [0]\<rparr>\<rparr>"

section \<open>Properties of the matrix-free operations\<close>

text \<open>
  Claim C2. For tree nodes, whose point range \<open>[start, end)\<close> has \<open>start \<le> end\<close>, insert appends
  the pair of node indices to the two index vectors if and only if both nodes own at least
  one point, and leaves the operation unchanged when either node is empty.
\<close>

theorem insert_appends_iff_nonempty:
  "(end' obs_n - start obs_n = 0 \<or> end' src_n - start src_n = 0
      \<longrightarrow> MatrixFreeOp_insert op obs_n src_n = op) \<and>
   (start obs_n \<le> end' obs_n \<and> start src_n \<le> end' src_n \<longrightarrow>
      MatrixFreeOp_insert op obs_n src_n =
        (if 0 < end' obs_n - start obs_n \<and> 0 < end' src_n - start src_n
         then op\<lparr>obs_n_idx := obs_n_idx op @ [idx obs_n],
                 src_n_idx := src_n_idx op @ [idx src_n]\<rparr>
         else op))"
  by (auto simp: MatrixFreeOp_insert_def)

theorem insert_appends_iff_nonempty_witness:
  "MatrixFreeOp_insert \<lparr>obs_n_idx = [1], src_n_idx = [2]\<rparr> node_three node_three
     = \<lparr>obs_n_idx = [1, 7], src_n_idx = [2, 7]\<rparr> \<and>
   MatrixFreeOp_insert \<lparr>obs_n_idx = [1], src_n_idx = [2]\<rparr> node_three node_empty
     = \<lparr>obs_n_idx = [1], src_n_idx = [2]\<rparr>"
  using insert_appends_iff_nonempty
          [of node_three node_three "\<lparr>obs_n_idx = [1], src_n_idx = [2]\<rparr>"]
        insert_appends_iff_nonempty
          [of node_three node_empty "\<lparr>obs_n_idx = [1], src_n_idx = [2]\<rparr>"]
  by (simp add: node_three_def node_empty_def)

lemma int_ivl_split: "j < hi \<Longrightarrow> {j..<hi} = insert j {j + 1..<hi}" for j hi :: int
  by auto

lemma inner_sum:
  assumes hi: "vec_at (obs_src_starts list) (int i + 1) = Some hi"
    and ok: "\<forall>k \<in> {j..<hi}. 0 \<le> k \<and> k < int (length (src_n_idxs list)) \<and>
           (src_surf \<or> node_idx_ok src_tree (src_n_idxs list ! nat k)) \<and>
           in_int (n_obs * n_src_of list src_tree src_surf n_surf k)"
    and n: "0 \<le> n" "n < 2 ^ 64"
  shows "count_interactions_inner list src_tree src_surf n_surf i n_obs j n =
           Some ((n + (\<Sum>k \<in> {j..<hi}. n_obs * n_src_of list src_tree src_surf n_surf k)) mod 2 ^ 64)"
  using ok n
proof (induction "nat (hi - j)" arbitrary: j n)
  case 0
  then have "\<not> j < hi" by simp
  then show ?case
    using hi 0 by (subst count_interactions_inner.simps) simp
next
  case (Suc m)
  then have lt: "j < hi" by linarith
  let ?f = "\<lambda>k. n_obs * n_src_of list src_tree src_surf n_surf k"
  from Suc.prems lt have j: "0 \<le> j" "j < int (length (src_n_idxs list))"
    and nd: "src_surf \<or> node_idx_ok src_tree (src_n_idxs list ! nat j)"
    and pr: "in_int (?f j)"
    by auto
  have m: "m = nat (hi - (j + 1))" using Suc.hyps(2) by linarith
  have ok': "\<forall>k \<in> {j + 1..<hi}. 0 \<le> k \<and> k < int (length (src_n_idxs list)) \<and>
           (src_surf \<or> node_idx_ok src_tree (src_n_idxs list ! nat k)) \<and> in_int (?f k)"
    using Suc.prems(1) by auto
  have n': "0 \<le> (n + ?f j) mod 2 ^ 64" "(n + ?f j) mod 2 ^ 64 < 2 ^ 64"
    by simp_all
  have step: "count_interactions_inner list src_tree src_surf n_surf i n_obs j n =
     count_interactions_inner list src_tree src_surf n_surf i n_obs (j + 1) ((n + ?f j) mod 2 ^ 64)"
    using hi lt j nd pr
    by (subst count_interactions_inner.simps)
       (auto simp: vec_at_def as_int_def n_src_of_def node_idx_ok_def)
  have "((n + ?f j) mod 2 ^ 64 + sum ?f {j + 1..<hi}) mod 2 ^ 64
        = (n + (?f j + sum ?f {j + 1..<hi})) mod 2 ^ 64"
    by (simp add: mod_add_left_eq add.assoc)
  also have "?f j + sum ?f {j + 1..<hi} = sum ?f {j..<hi}"
    using lt by (simp add: int_ivl_split)
  finally show ?case
    using Suc.hyps(1)[OF m ok' n'] step by simp
qed

lemma outer_sum:
  assumes ok: "count_defined list obs_tree src_tree obs_surf src_surf n_surf"
    and n: "0 \<le> n" "n < 2 ^ 64"
  shows "count_interactions_outer list obs_tree src_tree obs_surf src_surf n_surf i n =
     Some ((n + (\<Sum>i' \<in> {i..<length (obs_n_idxs list)}.
                  \<Sum>j \<in> {obs_src_starts list ! i' ..< obs_src_starts list ! (i' + 1)}.
                     n_obs_of list obs_tree obs_surf n_surf i'
                     * n_src_of list src_tree src_surf n_surf j)) mod 2 ^ 64)"
  using n
proof (induction "length (obs_n_idxs list) - i" arbitrary: i n)
  case 0
  then show ?case
    by (subst count_interactions_outer.simps) simp
next
  case (Suc m)
  then have lt: "i < length (obs_n_idxs list)" by linarith
  let ?g = "\<lambda>i'. \<Sum>j \<in> {obs_src_starts list ! i' ..< obs_src_starts list ! (i' + 1)}.
                     n_obs_of list obs_tree obs_surf n_surf i'
                     * n_src_of list src_tree src_surf n_surf j"
  from ok lt have st: "i + 1 < length (obs_src_starts list)"
    and nd: "obs_surf \<or> node_idx_ok obs_tree (obs_n_idxs list ! i)"
    and inner: "\<forall>j \<in> {obs_src_starts list ! i ..< obs_src_starts list ! (i + 1)}.
           0 \<le> j \<and> j < int (length (src_n_idxs list)) \<and>
           (src_surf \<or> node_idx_ok src_tree (src_n_idxs list ! nat j)) \<and>
           in_int (n_obs_of list obs_tree obs_surf n_surf i
                   * n_src_of list src_tree src_surf n_surf j)"
    unfolding count_defined_def list_all_iff by auto
  have hi: "vec_at (obs_src_starts list) (int i + 1) = Some (obs_src_starts list ! (i + 1))"
    using st by (simp add: vec_at_def nat_add_distrib)
  have lo: "vec_at (obs_src_starts list) (int i) = Some (obs_src_starts list ! i)"
    using st by (simp add: vec_at_def)
  have oi: "vec_at (obs_n_idxs list) (int i) = Some (obs_n_idxs list ! i)"
    using lt by (simp add: vec_at_def)
  have nobs: "(if \<not> obs_surf
                   then do { nd \<leftarrow> vec_at (nodes obs_tree) (obs_n_idxs list ! i);
                             as_int (end' nd - start nd) }
                   else Some n_surf) = Some (n_obs_of list obs_tree obs_surf n_surf i)"
    using nd by (auto simp: vec_at_def as_int_def n_obs_of_def node_idx_ok_def)
  note in_eq = inner_sum[OF hi inner Suc.prems]
  have m: "m = length (obs_n_idxs list) - (i + 1)" using Suc.hyps(2) by linarith
  have n': "0 \<le> (n + ?g i) mod 2 ^ 64" "(n + ?g i) mod 2 ^ 64 < 2 ^ 64"
    by simp_all
  have step: "count_interactions_outer list obs_tree src_tree obs_surf src_surf n_surf i n =
      count_interactions_outer list obs_tree src_tree obs_surf src_surf n_surf (i + 1)
        ((n + ?g i) mod 2 ^ 64)"
    using lt by (subst count_interactions_outer.simps) (simp add: oi nobs lo in_eq)
  have "((n + ?g i) mod 2 ^ 64 + sum ?g {i + 1..<length (obs_n_idxs list)}) mod 2 ^ 64
        = (n + (?g i + sum ?g {i + 1..<length (obs_n_idxs list)})) mod 2 ^ 64"
    by (simp add: mod_add_left_eq add.assoc)
  also have "?g i + sum ?g {i + 1..<length (obs_n_idxs list)} = sum ?g {i..<length (obs_n_idxs list)}"
    using lt by (simp add: sum.atLeast_Suc_lessThan)
  finally show ?case
    using Suc.hyps(1)[OF m n'] step by simp
qed

text \<open>
  Claim C9. On every input on which the run is defined (indices in bounds, products within
  \<^verbatim>\<open>int\<close>), \<^verbatim>\<open>count_interactions\<close> returns the sum over all entries \<open>(i, j)\<close> with
  \<open>obs_src_starts[i] \<le> j < obs_src_starts[i + 1]\<close> of \<open>n_obs * n_src\<close>, where \<open>n_obs\<close> is \<open>n_surf\<close>
  when \<open>obs_surf\<close> holds and the point count of node \<open>obs_n_idxs[i]\<close> otherwise, and likewise
  for \<open>n_src\<close>; the sum is held in a \<^verbatim>\<open>size_t\<close>, that is, modulo \<open>2 ^ 64\<close>.
\<close>

theorem count_interactions_sum:
  assumes "count_defined list obs_tree src_tree obs_surf src_surf n_surf"
  shows "count_interactions list obs_tree src_tree obs_surf src_surf n_surf =
     Some ((\<Sum>i < length (obs_n_idxs list).
              \<Sum>j \<in> {obs_src_starts list ! i ..< obs_src_starts list ! (i + 1)}.
                 n_obs_of list obs_tree obs_surf n_surf i
                 * n_src_of list src_tree src_surf n_surf j) mod 2 ^ 64)"
  using outer_sum[OF assms, of 0 0]
  by (simp add: count_interactions_def atLeast0LessThan)

theorem count_interactions_sum_witness:
  "count_interactions ex_list ex_tree ex_tree False False 5 = Some 18"
proof -
  have d: "count_defined ex_list ex_tree ex_tree False False 5"
    by code_simp
  have s: "(\<Sum>i < length (obs_n_idxs ex_list).
              \<Sum>j \<in> {obs_src_starts ex_list ! i ..< obs_src_starts ex_list ! (i + 1)}.
                 n_obs_of ex_list ex_tree False 5 i * n_src_of ex_list ex_tree False 5 j) = 18"
    by (simp add: ex_list_def ex_tree_def n_obs_of_def n_src_of_def
      node_three_def node_empty_def lessThan_Suc numeral_2_eq_2 int_ivl_split)
  show ?thesis
    using count_interactions_sum[OF d] unfolding s by simp
qed


section \<open>Properties of the block-sparse assembly\<close>

lemma for_up_0: "for_up 0 body s = Some s"
  by (simp add: for_up_def)

lemma for_up_Suc: "for_up (Suc n) body s = Option.bind (for_up n body s) (body n)"
  by (simp add: for_up_def)

lemma for_up_invariant:
  assumes "I 0 s"
    and "\<And>i t. i < n \<Longrightarrow> I i t \<Longrightarrow> \<exists>t'. body i t = Some t' \<and> I (Suc i) t'"
  shows "\<exists>t. for_up n body s = Some t \<and> I n t"
proof -
  have "m \<le> n \<Longrightarrow> \<exists>t. for_up m body s = Some t \<and> I m t" for m
  proof (induction m)
    case 0
    then show ?case using assms(1) by (simp add: for_up_0)
  next
    case (Suc m)
    then obtain t where t: "for_up m body s = Some t" "I m t" by auto
    from assms(2)[OF _ t(2)] Suc.prems obtain t' where "body m t = Some t'" "I (Suc m) t'"
      by auto
    then show ?case using t(1) by (simp add: for_up_Suc)
  qed
  then show ?thesis by simp
qed

lemma int32_of_id: "in_int x \<Longrightarrow> int32_of x = x"
  by (simp add: in_int_def int32_of_def)

lemma cnt_nonneg: "0 \<le> cnt rows r"
  by (simp add: cnt_def)

lemma cnt_take_Suc:
  "n < length rows \<Longrightarrow> cnt (take (Suc n) rows) r = cnt (take n rows) r + (if rows ! n = r then 1 else 0)"
  by (simp add: cnt_def take_Suc_conv_app_nth)

lemma cnt_take_le: "cnt (take n rows) r \<le> cnt rows r"
proof -
  have "rows = take n rows @ drop n rows" by simp
  then have "cnt rows r = cnt (take n rows) r + cnt (drop n rows) r"
    unfolding cnt_def by (metis filter_append length_append of_nat_add)
  then show ?thesis using cnt_nonneg[of "drop n rows" r] by linarith
qed

lemma cnt_take_lt:
  assumes "n < length rows"
  shows "cnt (take n rows) (rows ! n) < cnt rows (rows ! n)"
proof -
  have "cnt (take (Suc n) rows) (rows ! n) \<le> cnt rows (rows ! n)" by (rule cnt_take_le)
  then show ?thesis using cnt_take_Suc[OF assms, of "rows ! n"] by simp
qed

lemma cnt_take_mono: "m \<le> n \<Longrightarrow> cnt (take m rows) r \<le> cnt (take n rows) r"
  using cnt_take_le[of m "take n rows" r] by (simp add: min_absorb1)

lemma offs_Suc: "offs rows (r + 1) = offs rows r + cnt rows r"
  unfolding offs_def cnt_def by (induction rows) auto

lemma offs_mono: "r \<le> r' \<Longrightarrow> offs rows r \<le> offs rows r'"
  unfolding offs_def by (induction rows) auto

lemma offs_le_length: "offs rows r \<le> int (length rows)"
  by (simp add: offs_def)

lemma offs_cnt_le_length: "offs rows r + cnt rows r \<le> int (length rows)"
  using offs_le_length[of rows "r + 1"] by (simp add: offs_Suc)

lemma offs_0: "\<forall>r \<in> set rows. 0 \<le> r \<Longrightarrow> offs rows 0 = 0"
  unfolding offs_def by (induction rows) auto

lemma offs_top: "\<forall>r \<in> set rows. r < b \<Longrightarrow> offs rows b = int (length rows)"
  unfolding offs_def by (induction rows) auto

lemma offs_nonneg: "0 \<le> offs rows r"
  by (simp add: offs_def)

lemma slot_bounds:
  assumes "n < length rows"
  shows "offs rows (rows ! n) \<le> slot rows n" "slot rows n < offs rows (rows ! n + 1)"
    "0 \<le> slot rows n" "slot rows n < int (length rows)"
proof -
  show 1: "offs rows (rows ! n) \<le> slot rows n"
    using cnt_nonneg[of "take n rows" "rows ! n"] by (simp add: slot_def)
  show 2: "slot rows n < offs rows (rows ! n + 1)"
    using cnt_take_lt[OF assms] by (simp add: slot_def offs_Suc)
  show "0 \<le> slot rows n" using 1 offs_nonneg[of rows "rows ! n"] by linarith
  show "slot rows n < int (length rows)"
    using 2 offs_le_length[of rows "rows ! n + 1"] by linarith
qed

lemma slot_neq:
  assumes "m < n" "n < length rows"
  shows "slot rows m \<noteq> slot rows n"
proof (cases "rows ! m = rows ! n")
  case True
  have "cnt (take (Suc m) rows) (rows ! m) \<le> cnt (take n rows) (rows ! m)"
    using assms by (intro cnt_take_mono) simp
  moreover have "cnt (take (Suc m) rows) (rows ! m) = cnt (take m rows) (rows ! m) + 1"
    using assms by (simp add: cnt_take_Suc)
  ultimately show ?thesis using True by (simp add: slot_def)
next
  case False
  have m: "m < length rows" using assms by simp
  show ?thesis
  proof (cases "rows ! m < rows ! n")
    case True
    then have "offs rows (rows ! m + 1) \<le> offs rows (rows ! n)" by (intro offs_mono) simp
    then show ?thesis using slot_bounds(2)[OF m] slot_bounds(1)[OF assms(2)] by linarith
  next
    case F: False
    with False have "rows ! n < rows ! m" by simp
    then have "offs rows (rows ! n + 1) \<le> offs rows (rows ! m)" by (intro offs_mono) simp
    then show ?thesis using slot_bounds(2)[OF assms(2)] slot_bounds(1)[OF m] by linarith
  qed
qed

lemma slot_inj: "inj_on (slot rows) {..<length rows}"
proof (rule inj_onI)
  fix m n assume "m \<in> {..<length rows}" "n \<in> {..<length rows}" "slot rows m = slot rows n"
  then show "m = n"
    using slot_neq[of m n rows] slot_neq[of n m rows] by (cases m n rule: linorder_cases) auto
qed


lemma vec_at_nat: "i < length v \<Longrightarrow> vec_at v (int i) = Some (v ! i)"
  by (simp add: vec_at_def)

lemma vec_set_nat: "i < length v \<Longrightarrow> vec_set v (int i) x = Some (v[i := x])"
  by (simp add: vec_set_def)

lemma cnt_take_bound: "cnt (take i rows) r \<le> int i"
  unfolding cnt_def using length_filter_le[of "\<lambda>x. x = r" "take i rows"] by simp

lemma count_rows_result:
  assumes rows_ok: "\<forall>r \<in> set rows. 0 \<le> r \<and> r < int nrb"
    and nb: "int (length rows) < 2 ^ 31"
    and len: "length ip = nrb + 1"
    and init: "\<forall>r < nrb. ip ! r = 0"
  shows "\<exists>ip'. count_rows rows ip = Some ip' \<and> length ip' = nrb + 1 \<and>
           (\<forall>r < nrb. ip' ! r = cnt rows (int r))"
proof -
  define I where "I i t \<longleftrightarrow> length t = nrb + 1 \<and> (\<forall>r < nrb. t ! r = cnt (take i rows) (int r))"
    for i and t :: "int list"
  define body where "body = (\<lambda>i indptr. do {
        r \<leftarrow> vec_at rows (int i);
        x \<leftarrow> vec_at indptr r;
        y \<leftarrow> as_int (x + 1);
        vec_set indptr r y
      })"
  have I0: "I 0 ip" using len init by (simp add: I_def cnt_def)
  have step: "\<exists>t'. body i t = Some t' \<and> I (Suc i) t'" if i: "i < length rows" and It: "I i t" for i t
  proof -
    let ?r = "rows ! i"
    have r: "0 \<le> ?r" "?r < int nrb" using rows_ok i by auto
    then have rn: "nat ?r < nrb" "int (nat ?r) = ?r" by auto
    have lt: "length t = nrb + 1" and tv: "\<forall>r < nrb. t ! r = cnt (take i rows) (int r)"
      using It by (auto simp: I_def)
    have x: "t ! nat ?r = cnt (take i rows) ?r" using tv rn by auto
    have xin: "in_int (t ! nat ?r + 1)"
      using cnt_take_bound[of i rows ?r] cnt_nonneg[of "take i rows" ?r] i nb
      by (simp add: x in_int_def)
    have b: "body i t = Some (t[nat ?r := t ! nat ?r + 1])"
      using i r lt xin by (simp add: body_def vec_at_def vec_set_def as_int_def)
    have "I (Suc i) (t[nat ?r := t ! nat ?r + 1])"
      unfolding I_def
    proof (intro conjI allI impI)
      show "length (t[nat ?r := t ! nat ?r + 1]) = nrb + 1" using lt by simp
    next
      fix r' assume r': "r' < nrb"
      show "t[nat ?r := t ! nat ?r + 1] ! r' = cnt (take (Suc i) rows) (int r')"
      proof (cases "r' = nat ?r")
        case True
        then show ?thesis using lt rn x i by (simp add: cnt_take_Suc)
      next
        case False
        then have "rows ! i \<noteq> int r'" using rn by auto
        then show ?thesis using False tv r' i by (simp add: cnt_take_Suc)
      qed
    qed
    then show ?thesis using b by blast
  qed
  from for_up_invariant[of I ip "length rows" body, OF I0 step]
  obtain t where "for_up (length rows) body ip = Some t" "I (length rows) t" by blast
  then show ?thesis by (auto simp: count_rows_def body_def I_def)
qed

lemma cumsum_rows_result:
  assumes nb: "int (length rows) < 2 ^ 31"
    and len: "length ip = nrb + 1"
    and init: "\<forall>r < nrb. ip ! r = cnt rows (int r)"
    and rows_ok: "\<forall>r \<in> set rows. 0 \<le> r"
  shows "\<exists>ip' c. cumsum_rows nrb ip = Some (ip', c) \<and> length ip' = nrb + 1 \<and>
           (\<forall>r < nrb. ip' ! r = offs rows (int r))"
proof -
  define I where "I i t \<longleftrightarrow> length (fst t) = nrb + 1 \<and> snd t = offs rows (int i) \<and>
      (\<forall>r < nrb. fst t ! r = (if r < i then offs rows (int r) else cnt rows (int r)))"
    for i and t :: "int list \<times> int"
  define body where "body = (\<lambda>i (indptr, cumsum). do {
        temp \<leftarrow> vec_at indptr (int i);
        indptr \<leftarrow> vec_set indptr (int i) (int32_of cumsum);
        Some (indptr, (cumsum + temp) mod 2 ^ 64)
      })"
  have I0: "I 0 (ip, 0)" using len init rows_ok by (simp add: I_def offs_0)
  have step: "\<exists>t'. body i t = Some t' \<and> I (Suc i) t'" if i: "i < nrb" and It: "I i t" for i t
  proof -
    obtain a c where t: "t = (a, c)" by (cases t)
    have la: "length a = nrb + 1" and c: "c = offs rows (int i)"
      and av: "\<forall>r < nrb. a ! r = (if r < i then offs rows (int r) else cnt rows (int r))"
      using It by (auto simp: I_def t)
    have ai: "a ! i = cnt rows (int i)" using av i by auto
    have cin: "in_int c"
      using offs_nonneg[of rows "int i"] offs_le_length[of rows "int i"] nb
      by (simp add: c in_int_def)
    have sum: "c + a ! i = offs rows (int (Suc i))"
      using offs_Suc[of rows "int i"] by (simp add: c ai add.commute)
    have p: "(2::int) ^ 31 < 2 ^ 64" by simp
    have "0 \<le> c + a ! i" "c + a ! i < 2 ^ 64"
      using offs_nonneg[of rows "int (Suc i)"] offs_le_length[of rows "int (Suc i)"] nb p
      unfolding sum by linarith+
    then have md: "(c + a ! i) mod 2 ^ 64 = c + a ! i" by simp
    have b: "body i t = Some (a[i := c], c + a ! i)"
      using i la md by (simp add: body_def t vec_at_nat vec_set_nat int32_of_id[OF cin])
    have "I (Suc i) (a[i := c], c + a ! i)"
      unfolding I_def using la av c sum by (auto simp: nth_list_update less_Suc_eq)
    then show ?thesis using b by blast
  qed
  from for_up_invariant[of I "(ip, 0)" nrb body, OF I0 step]
  obtain t where "for_up nrb body (ip, 0) = Some t" "I nrb t" by blast
  then show ?thesis by (cases t) (auto simp: cumsum_rows_def body_def I_def)
qed


lemma block_range_disjoint:
  fixes a b bs k :: nat
  assumes "a \<noteq> b" "k < bs"
  shows "\<not> (b * bs \<le> a * bs + k \<and> a * bs + k < b * bs + bs)"
proof (cases "a < b")
  case True
  then have "Suc a * bs \<le> b * bs" by (intro mult_le_mono1) simp
  then show ?thesis using assms(2) by simp
next
  case False
  with assms(1) have "Suc b * bs \<le> a * bs" by (intro mult_le_mono1) simp
  then show ?thesis by simp
qed

lemma block_range_inside:
  fixes a n bs k :: nat
  assumes "a < n" "k < bs"
  shows "a * bs + k < n * bs"
proof -
  have "Suc a * bs \<le> n * bs" using assms(1) by (intro mult_le_mono1) simp
  then show ?thesis using assms(2) by simp
qed

lemma copy_block_result:
  assumes src: "Suc n * bs \<le> length in_data"
    and dest: "0 \<le> dest" "nat dest < nb"
    and len: "length data = nb * bs"
  shows "\<exists>data'. copy_block bs in_data n dest data = Some data' \<and> length data' = nb * bs \<and>
           (\<forall>k < bs. data' ! (nat dest * bs + k) = in_data ! (n * bs + k)) \<and>
           (\<forall>p. \<not> (nat dest * bs \<le> p \<and> p < nat dest * bs + bs) \<longrightarrow> data' ! p = data ! p)"
proof -
  define D where "D = nat dest"
  define I where "I k d \<longleftrightarrow> length d = nb * bs \<and>
      (\<forall>k' < k. d ! (D * bs + k') = in_data ! (n * bs + k')) \<and>
      (\<forall>p. \<not> (D * bs \<le> p \<and> p < D * bs + bs) \<longrightarrow> d ! p = data ! p)"
    for k and d :: "real list"
  define body where "body = (\<lambda>k data. do {
        x \<leftarrow> vec_at in_data (int (n * bs + k));
        vec_set data (dest * int bs + int k) x
      })"
  have I0: "I 0 data" using len by (simp add: I_def)
  have step: "\<exists>t'. body k t = Some t' \<and> I (Suc k) t'" if k: "k < bs" and It: "I k t" for k t
  proof -
    have lt: "length t = nb * bs"
      and cp: "\<forall>k' < k. t ! (D * bs + k') = in_data ! (n * bs + k')"
      and fr: "\<forall>p. \<not> (D * bs \<le> p \<and> p < D * bs + bs) \<longrightarrow> t ! p = data ! p"
      using It by (auto simp: I_def)
    have rd: "n * bs + k < length in_data" using src k by simp
    have idx: "dest * int bs + int k = int (D * bs + k)" using dest by (simp add: D_def)
    have wr: "D * bs + k < length t"
      using block_range_inside[of D nb k bs] dest k lt by (simp add: D_def)
    have b: "body k t = Some (t[D * bs + k := in_data ! (n * bs + k)])"
      unfolding body_def idx vec_at_nat[OF rd] by (simp only: Option.bind.simps vec_set_nat[OF wr])
    have "I (Suc k) (t[D * bs + k := in_data ! (n * bs + k)])"
      unfolding I_def using lt cp fr wr k by (auto simp: nth_list_update less_Suc_eq)
    then show ?thesis using b by blast
  qed
  from for_up_invariant[of I data bs body, OF I0 step]
  obtain t where "for_up bs body data = Some t" "I bs t" by blast
  then show ?thesis by (auto simp: copy_block_def body_def I_def D_def)
qed


lemma cnt_take_all: "cnt (take (length rows) rows) r = cnt rows r"
  by simp

lemma scatter_blocks_result:
  assumes rows_ok: "\<forall>r \<in> set rows. 0 \<le> r \<and> r < int nrb \<and> in_int r"
    and cols_ok: "\<forall>c \<in> set cols. in_int c"
    and nb: "int (length rows) < 2 ^ 31"
    and lc: "length rows \<le> length cols"
    and ld: "length rows * bs \<le> length in_data"
    and len: "length ip = nrb + 1" "length ind = length rows" "length dat = length rows * bs"
    and init: "\<forall>r < nrb. ip ! r = offs rows (int r)"
  shows "\<exists>ip' ind' dat'. scatter_blocks bs in_data rows cols (ip, ind, dat) = Some (ip', ind', dat') \<and>
           length ip' = nrb + 1 \<and> (\<forall>r < nrb. ip' ! r = offs rows (int r + 1)) \<and>
           ip' ! nrb = ip ! nrb \<and> length ind' = length rows \<and> length dat' = length rows * bs \<and>
           (\<forall>m < length rows. ind' ! nat (slot rows m) = cols ! m) \<and>
           (\<forall>m < length rows. \<forall>k < bs.
               dat' ! (nat (slot rows m) * bs + k) = in_data ! (m * bs + k))"
proof -
  define I where "I n t \<longleftrightarrow> (case t of (a, b, d) \<Rightarrow>
      length a = nrb + 1 \<and> length b = length rows \<and> length d = length rows * bs \<and>
      (\<forall>r < nrb. a ! r = offs rows (int r) + cnt (take n rows) (int r)) \<and>
      a ! nrb = ip ! nrb \<and>
      (\<forall>m < n. b ! nat (slot rows m) = cols ! m) \<and>
      (\<forall>m < n. \<forall>k < bs. d ! (nat (slot rows m) * bs + k) = in_data ! (m * bs + k)))"
    for n and t :: "int list \<times> int list \<times> real list"
  define body where "body = (\<lambda>n (indptr, indices, data). do {
        rw \<leftarrow> vec_at rows (int n);
        let row = int32_of rw;
        dest \<leftarrow> vec_at indptr row;
        c \<leftarrow> vec_at cols (int n);
        indices \<leftarrow> vec_set indices dest (int32_of c);
        data \<leftarrow> copy_block bs in_data n dest data;
        x \<leftarrow> vec_at indptr row;
        y \<leftarrow> as_int (x + 1);
        indptr \<leftarrow> vec_set indptr row y;
        Some (indptr, indices, data)
      })"
  have I0: "I 0 (ip, ind, dat)" using len init by (simp add: I_def cnt_def)
  have step: "\<exists>t'. body n t = Some t' \<and> I (Suc n) t'" if n: "n < length rows" and It: "I n t" for n t
  proof -
    obtain a b d where t: "t = (a, b, d)" by (cases t)
    have la: "length a = nrb + 1" and lb: "length b = length rows"
      and ldd: "length d = length rows * bs"
      and av: "\<forall>r < nrb. a ! r = offs rows (int r) + cnt (take n rows) (int r)"
      and al: "a ! nrb = ip ! nrb"
      and bv: "\<forall>m < n. b ! nat (slot rows m) = cols ! m"
      and dv: "\<forall>m < n. \<forall>k < bs. d ! (nat (slot rows m) * bs + k) = in_data ! (m * bs + k)"
      using It by (auto simp: I_def t)
    let ?r = "rows ! n"
    have r: "0 \<le> ?r" "?r < int nrb" "in_int ?r" using rows_ok n by auto
    then have rn: "nat ?r < nrb" "int (nat ?r) = ?r" by auto
    have dest: "a ! nat ?r = slot rows n" using av rn by (auto simp: slot_def)
    note sb = slot_bounds[OF n]
    let ?D = "nat (slot rows n)"
    have D: "?D < length rows" "int ?D = slot rows n" using sb by auto
    have c: "in_int (cols ! n)" using cols_ok n lc by auto
    have "Suc n * bs \<le> length rows * bs"
      using n by (intro mult_le_mono1) simp
    then have src: "Suc n * bs \<le> length in_data"
      using ld by simp
    from copy_block_result[OF src sb(3) D(1) ldd]
    obtain d' where d': "copy_block bs in_data n (slot rows n) d = Some d'"
      "length d' = length rows * bs"
      "\<forall>k < bs. d' ! (?D * bs + k) = in_data ! (n * bs + k)"
      "\<forall>p. \<not> (?D * bs \<le> p \<and> p < ?D * bs + bs) \<longrightarrow> d' ! p = d ! p"
      by blast
    have yin: "in_int (slot rows n + 1)"
      using sb nb by (simp add: in_int_def)
    have b: "body n t = Some (a[nat ?r := slot rows n + 1], b[?D := cols ! n], d')"
      using n r la lb lc sb d'(1) yin dest
      by (simp add: body_def t vec_at_def vec_set_def as_int_def int32_of_id[OF r(3)]
            int32_of_id[OF c])
    have "I (Suc n) (a[nat ?r := slot rows n + 1], b[?D := cols ! n], d')"
      unfolding I_def prod.case
    proof (intro conjI allI impI)
      show "length (a[nat ?r := slot rows n + 1]) = nrb + 1" using la by simp
      show "length (b[?D := cols ! n]) = length rows" using lb by simp
      show "length d' = length rows * bs" by (rule d'(2))
      show "a[nat ?r := slot rows n + 1] ! nrb = ip ! nrb" using al rn by simp
    next
      fix r' assume r': "r' < nrb"
      show "a[nat ?r := slot rows n + 1] ! r' = offs rows (int r') + cnt (take (Suc n) rows) (int r')"
      proof (cases "r' = nat ?r")
        case True
        then show ?thesis using la rn n by (simp add: cnt_take_Suc slot_def)
      next
        case False
        then have "rows ! n \<noteq> int r'" using rn by auto
        then show ?thesis using False av r' n by (simp add: cnt_take_Suc)
      qed
    next
      fix m assume m: "m < Suc n"
      show "b[?D := cols ! n] ! nat (slot rows m) = cols ! m"
      proof (cases "m = n")
        case True
        then show ?thesis using D lb by simp
      next
        case False
        then have mn: "m < n" using m by simp
        have "slot rows m \<noteq> slot rows n" by (rule slot_neq[OF mn n])
        moreover have "0 \<le> slot rows m" using slot_bounds(3)[of m rows] mn n by simp
        ultimately have "nat (slot rows m) \<noteq> ?D" using sb(3) by auto
        then show ?thesis using bv mn by simp
      qed
    next
      fix m k assume m: "m < Suc n" and k: "k < bs"
      show "d' ! (nat (slot rows m) * bs + k) = in_data ! (m * bs + k)"
      proof (cases "m = n")
        case True
        then show ?thesis using d'(3) k by simp
      next
        case False
        then have mn: "m < n" using m by simp
        have "slot rows m \<noteq> slot rows n" by (rule slot_neq[OF mn n])
        moreover have "0 \<le> slot rows m" using slot_bounds(3)[of m rows] mn n by simp
        ultimately have "nat (slot rows m) \<noteq> ?D" using sb(3) by auto
        from block_range_disjoint[OF this k]
        have "d' ! (nat (slot rows m) * bs + k) = d ! (nat (slot rows m) * bs + k)"
          using d'(4) by blast
        then show ?thesis using dv mn k by simp
      qed
    qed
    then show ?thesis using b by blast
  qed
  from for_up_invariant[of I "(ip, ind, dat)" "length rows" body, OF I0 step]
  obtain t where t: "for_up (length rows) body (ip, ind, dat) = Some t" "I (length rows) t" by blast
  obtain a b d where abd: "t = (a, b, d)" by (cases t)
  have "\<forall>r < nrb. a ! r = offs rows (int r + 1)"
    using t(2) by (simp add: I_def abd offs_Suc)
  then show ?thesis
    using t unfolding abd I_def prod.case scatter_blocks_def body_def by blast
qed

lemma shift_indptr_result:
  assumes rows_ok: "\<forall>r \<in> set rows. 0 \<le> r \<and> r < int nrb"
    and nb: "int (length rows) < 2 ^ 31"
    and len: "length ip = nrb + 1"
    and init: "\<forall>r < nrb. ip ! r = offs rows (int r + 1)" "ip ! nrb = int (length rows)"
  shows "\<exists>ip' l. shift_indptr nrb ip = Some (ip', l) \<and> length ip' = nrb + 1 \<and>
           (\<forall>r \<le> nrb. ip' ! r = offs rows (int r))"
proof -
  define I where "I i t \<longleftrightarrow> length (fst t) = nrb + 1 \<and> snd t = offs rows (int i) \<and>
      (\<forall>r \<le> nrb. fst t ! r = (if r < i then offs rows (int r) else ip ! r))"
    for i and t :: "int list \<times> int"
  define body where "body = (\<lambda>i (indptr, last). do {
        temp \<leftarrow> vec_at indptr (int i);
        indptr \<leftarrow> vec_set indptr (int i) (int32_of last);
        Some (indptr, temp mod 2 ^ 64)
      })"
  have top: "offs rows (int nrb + 1) = int (length rows)"
    using rows_ok by (intro offs_top) auto
  have ipv: "ip ! r = offs rows (int r + 1)" if "r \<le> nrb" for r
    using that init top by (cases "r = nrb") auto
  have z: "offs rows 0 = 0" using rows_ok by (intro offs_0) auto
  have I0: "I 0 (ip, 0)" using len z by (simp add: I_def)
  have p: "(2::int) ^ 31 < 2 ^ 64" by simp
  have step: "\<exists>t'. body i t = Some t' \<and> I (Suc i) t'" if i: "i < nrb + 1" and It: "I i t" for i t
  proof -
    obtain a c where t: "t = (a, c)" by (cases t)
    have la: "length a = nrb + 1" and c: "c = offs rows (int i)"
      and av: "\<forall>r \<le> nrb. a ! r = (if r < i then offs rows (int r) else ip ! r)"
      using It by (auto simp: I_def t)
    have ai: "a ! i = offs rows (int i + 1)" using av i ipv[of i] by auto
    have cin: "in_int c"
      using offs_nonneg[of rows "int i"] offs_le_length[of rows "int i"] nb
      by (simp add: c in_int_def)
    have "0 \<le> a ! i" "a ! i < 2 ^ 64"
      using offs_nonneg[of rows "int i + 1"] offs_le_length[of rows "int i + 1"] nb p
      unfolding ai by linarith+
    then have md: "a ! i mod 2 ^ 64 = a ! i" by simp
    have b: "body i t = Some (a[i := c], a ! i)"
      using i la md by (simp add: body_def t vec_at_nat vec_set_nat int32_of_id[OF cin])
    have "I (Suc i) (a[i := c], a ! i)"
      unfolding I_def using la av c ai i by (auto simp: nth_list_update less_Suc_eq add.commute)
    then show ?thesis using b by blast
  qed
  from for_up_invariant[of I "(ip, 0)" "nrb + 1" body, OF I0 step]
  obtain t where "for_up (nrb + 1) body (ip, 0) = Some t" "I (nrb + 1) t" by blast
  then show ?thesis by (cases t) (auto simp: shift_indptr_def body_def I_def)
qed


text \<open>A run on four blocks of size 2 x 2 in three block rows.\<close>

lemma make_bsr_matrix_example:
  "make_bsr_matrix (\<lambda>k. 77) (\<lambda>k. 88) (\<lambda>k. 99) 6 4 2 2
        [1, 2, 3, 4, 5, 6, 7, 8, 9, 10, 11, 12, 13, 14, 15, 16] [2, 0, 2, 0] [1, 0, 0, 1]
     = Some ([5, 6, 7, 8, 13, 14, 15, 16, 1, 2, 3, 4, 9, 10, 11, 12], [0, 1, 1, 0], [0, 2, 2, 4])"
  by code_simp

text \<open>
  Claim C10. For \<open>n_blocks\<close> input blocks whose row indices lie in \<open>[0, n_rows / blockrows)\<close>
  (and whose counts and indices fit \<^verbatim>\<open>int\<close>, with \<^verbatim>\<open>cols\<close> and \<^verbatim>\<open>in_data\<close> long enough), the returned
  \<open>indptr\<close> starts at 0, ends at \<open>n_blocks\<close>, is non-decreasing, and \<open>indptr[r + 1] - indptr[r]\<close>
  is the number of blocks of row \<open>r\<close>; every block has a slot of its own inside the range of its
  row, where its column index and its \<open>blockrows * blockcols\<close> values are stored unchanged.
\<close>

theorem make_bsr_matrix_correct:
  assumes br: "0 < blockrows"
    and rows_ok: "\<forall>r \<in> set rows. 0 \<le> r \<and> r < int (n_rows div blockrows) \<and> in_int r"
    and cols_ok: "\<forall>c \<in> set cols. in_int c"
    and nb: "int (length rows) < 2 ^ 31"
    and lc: "length rows \<le> length cols"
    and ld: "length rows * (blockrows * blockcols) \<le> length in_data"
  shows "\<exists>data indices indptr.
     make_bsr_matrix fresh_indptr fresh_indices fresh_data
        n_rows n_cols blockrows blockcols in_data rows cols = Some (data, indices, indptr) \<and>
     length indptr = n_rows div blockrows + 1 \<and>
     indptr ! 0 = 0 \<and>
     indptr ! (n_rows div blockrows) = int (length rows) \<and>
     (\<forall>r < n_rows div blockrows. indptr ! r \<le> indptr ! (r + 1)) \<and>
     (\<forall>r < n_rows div blockrows.
         indptr ! (r + 1) - indptr ! r = int (length (filter (\<lambda>x. x = int r) rows))) \<and>
     length indices = length rows \<and>
     length data = length rows * (blockrows * blockcols) \<and>
     inj_on (slot rows) {..<length rows} \<and>
     (\<forall>n < length rows.
         indptr ! nat (rows ! n) \<le> slot rows n \<and>
         slot rows n < indptr ! (nat (rows ! n) + 1) \<and>
         indices ! nat (slot rows n) = cols ! n \<and>
         (\<forall>k < blockrows * blockcols.
             data ! (nat (slot rows n) * (blockrows * blockcols) + k)
               = in_data ! (n * (blockrows * blockcols) + k)))"
proof -
  define nrb where "nrb = n_rows div blockrows"
  define bs where "bs = blockrows * blockcols"
  define ip0 where "ip0 = fill (make_array fresh_indptr (nrb + 1)) nrb 0"
  define ind0 where "ind0 = make_array fresh_indices (length rows)"
  define dat0 where "dat0 = make_array fresh_data (length rows * bs)"
  have r1: "\<forall>r \<in> set rows. 0 \<le> r \<and> r < int nrb" and r2: "\<forall>r \<in> set rows. 0 \<le> r"
    and r3: "\<forall>r \<in> set rows. 0 \<le> r \<and> r < int nrb \<and> in_int r"
    using rows_ok by (auto simp: nrb_def)
  have l0: "length ip0 = nrb + 1" "length ind0 = length rows" "length dat0 = length rows * bs"
    by (simp_all add: ip0_def ind0_def dat0_def fill_def make_array_def)
  have z0: "\<forall>r < nrb. ip0 ! r = 0"
    by (simp add: ip0_def fill_def nth_append)
  from count_rows_result[OF r1 nb l0(1) z0]
  obtain ip1 where ip1: "count_rows rows ip0 = Some ip1" "length ip1 = nrb + 1"
    "\<forall>r < nrb. ip1 ! r = cnt rows (int r)" by blast
  from cumsum_rows_result[OF nb ip1(2) ip1(3) r2]
  obtain ip2 c where ip2: "cumsum_rows nrb ip1 = Some (ip2, c)" "length ip2 = nrb + 1"
    "\<forall>r < nrb. ip2 ! r = offs rows (int r)" by blast
  define ip2' where "ip2' = ip2[nrb := int (length rows)]"
  have nbin: "in_int (int (length rows))" using nb by (simp add: in_int_def)
  have set: "vec_set ip2 (int nrb) (int32_of (int (length rows))) = Some ip2'"
    using ip2(2) by (simp add: vec_set_nat int32_of_id[OF nbin] ip2'_def)
  have ip2'v: "length ip2' = nrb + 1" "\<forall>r < nrb. ip2' ! r = offs rows (int r)"
    "ip2' ! nrb = int (length rows)"
    using ip2(2,3) by (simp_all add: ip2'_def)
  from scatter_blocks_result[OF r3 cols_ok nb lc ld[folded bs_def] ip2'v(1) l0(2) l0(3) ip2'v(2)]
  obtain ip3 ind dat where s3: "scatter_blocks bs in_data rows cols (ip2', ind0, dat0) = Some (ip3, ind, dat)"
    "length ip3 = nrb + 1" "\<forall>r < nrb. ip3 ! r = offs rows (int r + 1)"
    "ip3 ! nrb = ip2' ! nrb" "length ind = length rows" "length dat = length rows * bs"
    "\<forall>m < length rows. ind ! nat (slot rows m) = cols ! m"
    "\<forall>m < length rows. \<forall>k < bs. dat ! (nat (slot rows m) * bs + k) = in_data ! (m * bs + k)"
    by blast
  have top3: "ip3 ! nrb = int (length rows)" using s3(4) ip2'v(3) by simp
  from shift_indptr_result[OF r1 nb s3(2) s3(3) top3]
  obtain ip4 l where ip4: "shift_indptr nrb ip3 = Some (ip4, l)" "length ip4 = nrb + 1"
    "\<forall>r \<le> nrb. ip4 ! r = offs rows (int r)" by blast
  have res: "make_bsr_matrix fresh_indptr fresh_indices fresh_data
        n_rows n_cols blockrows blockcols in_data rows cols = Some (dat, ind, ip4)"
    unfolding make_bsr_matrix_def Let_def nrb_def[symmetric] bs_def[symmetric]
      ip0_def[symmetric] ind0_def[symmetric] dat0_def[symmetric]
    using br by (simp add: ip1(1) ip2(1) set s3(1) ip4(1))
  have p0: "ip4 ! 0 = 0" using ip4(3) r2 by (simp add: offs_0)
  have ptop: "ip4 ! nrb = int (length rows)"
    using ip4(3) r1 by (simp add: offs_top)
  have pmono: "\<forall>r < nrb. ip4 ! r \<le> ip4 ! (r + 1)"
    using ip4(3) by (auto intro!: offs_mono)
  have pdiff: "\<forall>r < nrb. ip4 ! (r + 1) - ip4 ! r = int (length (filter (\<lambda>x. x = int r) rows))"
  proof (intro allI impI)
    fix r assume r: "r < nrb"
    have "ip4 ! (r + 1) = offs rows (int r + 1)" using ip4(3) r by (simp add: add.commute)
    moreover have "ip4 ! r = offs rows (int r)" using ip4(3) r by simp
    ultimately show "ip4 ! (r + 1) - ip4 ! r = int (length (filter (\<lambda>x. x = int r) rows))"
      by (simp add: offs_Suc cnt_def)
  qed
  have blocks: "\<forall>n < length rows.
         ip4 ! nat (rows ! n) \<le> slot rows n \<and>
         slot rows n < ip4 ! (nat (rows ! n) + 1) \<and>
         ind ! nat (slot rows n) = cols ! n \<and>
         (\<forall>k < bs. dat ! (nat (slot rows n) * bs + k) = in_data ! (n * bs + k))"
  proof (intro allI impI)
    fix n assume n: "n < length rows"
    have r: "0 \<le> rows ! n" "rows ! n < int nrb" using r1 n by auto
    then have rn: "nat (rows ! n) < nrb" "int (nat (rows ! n)) = rows ! n" by auto
    have a: "ip4 ! nat (rows ! n) = offs rows (rows ! n)" using ip4(3) rn by simp
    have b: "ip4 ! (nat (rows ! n) + 1) = offs rows (rows ! n + 1)"
      using ip4(3) rn by (simp add: add.commute)
    show "ip4 ! nat (rows ! n) \<le> slot rows n \<and>
         slot rows n < ip4 ! (nat (rows ! n) + 1) \<and>
         ind ! nat (slot rows n) = cols ! n \<and>
         (\<forall>k < bs. dat ! (nat (slot rows n) * bs + k) = in_data ! (n * bs + k))"
      unfolding a b using slot_bounds(1,2)[OF n] s3(7,8) n by blast
  qed
  show ?thesis
    using res ip4(2) p0 ptop pmono pdiff s3(5) s3(6) slot_inj[of rows] blocks
    unfolding nrb_def bs_def by blast
qed


theorem make_bsr_matrix_correct_witness:
  "\<exists>data indices indptr.
     make_bsr_matrix (\<lambda>k. 77) (\<lambda>k. 88) (\<lambda>k. 99) 6 4 2 2
        [1, 2, 3, 4, 5, 6, 7, 8, 9, 10, 11, 12, 13, 14, 15, 16] [2, 0, 2, 0] [1, 0, 0, 1]
       = Some (data, indices, indptr) \<and>
     length indptr = 4 \<and> indptr ! 0 = 0 \<and> indptr ! 3 = 4 \<and>
     length indices = 4 \<and> length data = 16"
proof -
  have h: "(0::nat) < 2"
    "\<forall>r \<in> set [2, 0, 2, 0 :: int]. 0 \<le> r \<and> r < int (6 div 2) \<and> in_int r"
    "\<forall>c \<in> set [1, 0, 0, 1 :: int]. in_int c"
    "int (length [2, 0, 2, 0 :: int]) < 2 ^ 31"
    "length [2, 0, 2, 0 :: int] \<le> length [1, 0, 0, 1 :: int]"
    "length [2, 0, 2, 0 :: int] * (2 * 2)
       \<le> length [1, 2, 3, 4, 5, 6, 7, 8, 9, 10, 11, 12, 13, 14, 15, 16 :: real]"
    by (simp_all add: in_int_def)
  from make_bsr_matrix_correct[OF h, of "\<lambda>k. 77" "\<lambda>k. 88" "\<lambda>k. 99" 4]
  obtain data indices indptr where r:
    "make_bsr_matrix (\<lambda>k. 77) (\<lambda>k. 88) (\<lambda>k. 99) 6 4 2 2
        [1, 2, 3, 4, 5, 6, 7, 8, 9, 10, 11, 12, 13, 14, 15, 16] [2, 0, 2, 0] [1, 0, 0, 1]
       = Some (data, indices, indptr)"
    "length indptr = 6 div 2 + 1" "indptr ! 0 = 0"
    "indptr ! (6 div 2) = int (length [2, 0, 2, 0 :: int])"
    "length indices = length [2, 0, 2, 0 :: int]"
    "length data = length [2, 0, 2, 0 :: int] * (2 * 2)"
    by blast
  have "length indptr = 4" "indptr ! 3 = 4" "length indices = 4" "length data = 16"
    using r(2,4,5,6) by simp_all
  with r(1,3) show ?thesis by blast
qed

section \<open>Properties of the Python binding\<close>








text \<open>
  Claim C7, as the code has it. The construction of a KDTree fails with the runtime error of
  \<^verbatim>\<open>check_shape\<close> exactly when the points or the normals are not a two-dimensional array with
  three columns; the numbers of rows of the two arrays are not compared, the constructor being
  called with the number of rows of the points. \<^verbatim>\<open>eval\<close> checks nothing about its argument.
\<close>

theorem binding_shape_checks:
  "KDTree_init KDTree_new np_pts np_normals n_per_cell =
     (if shape_ok np_pts \<and> shape_ok np_normals
      then KDTree_new (buf np_pts) (buf np_normals) (shape np_pts ! 0) n_per_cell
      else Inl (runtime_error ''parameter requires n x 3 array.'')) \<and>
   (\<forall>out. eval_impl m (buf v) = Inr out \<longrightarrow>
      FMMMat_eval array_from_vector eval_impl m v = Inr (array_from_vector out))"
  by (auto simp: KDTree_init_def FMMMat_eval_def check_shape_def shape_ok_def on_ok_def)

theorem binding_shape_checks_witness:
  "KDTree_init (\<lambda>p n k c. Inr (p, n, k, c)) ex_flat ex_pts1 1
     = Inl (runtime_error ''parameter requires n x 3 array.'') \<and>
   KDTree_init (\<lambda>p n k c. Inr (p, n, k, c)) ex_pts2 ex_pts2 1
     = Inr (buf ex_pts2, buf ex_pts2, 2, 1) \<and>
   FMMMat_eval (\<lambda>v. v) (\<lambda>m q. Inr q) () ex_flat = Inr [0, 0, 1]"
  using binding_shape_checks[of "\<lambda>p n k c. Inr (p, n, k, c)" ex_flat ex_pts1 1
          "\<lambda>m q. Inr q" "()" ex_flat "\<lambda>v. v"]
        binding_shape_checks[of "\<lambda>p n k c. Inr (p, n, k, c)" ex_pts2 ex_pts2 1
          "\<lambda>m q. Inr q" "()" ex_flat "\<lambda>v. v"]
  by (simp add: shape_ok_def ndim_def ex_flat_def ex_pts1_def ex_pts2_def)

text \<open>Two points with the normals of one point: both checks pass and the constructor is
  called for two points.\<close>

theorem normals_mismatch_not_rejected:
  "shape ex_pts1 ! 0 \<noteq> shape ex_pts2 ! 0 \<and>
   KDTree_init (\<lambda>p n k c. Inr (p, n, k, c)) ex_pts2 ex_pts1 1
     = Inr ([0, 0, 0, 1, 1, 1], [0, 0, 1], 2, 1)"
  by (simp add: KDTree_init_def check_shape_def on_ok_def ndim_def ex_pts1_def ex_pts2_def)


section \<open>Properties of the tree builder\<close>

lemma mset_split: "mset (left_items its) + mset (right_items its) = mset its"
  by (simp add: left_items_def right_items_def)

lemma mset_build: "mset (kt_items (build cap s d its)) = mset its"
proof (induction cap s d its rule: build.induct)
  case (1 cap s d its)
  show ?case
  proof (cases "length its \<le> cap \<or> sphere_r (bounding_ball its) \<le> min_radius")
    case True
    then show ?thesis by (simp add: build.simps)
  next
    case False
    then have r: "min_radius < sphere_r (bounding_ball its)" by simp
    note sp = split_proper[OF r]
    have l: "mset (kt_items (build cap s (d + 1) (left_items its))) = mset (left_items its)"
      using "1.IH"(1)[OF False sp(3)] .
    have rr: "mset (kt_items (build cap (s + length (left_items its)) (d + 1) (right_items its)))
        = mset (right_items its)"
      using "1.IH"(2)[OF False _ sp(4)] by simp
    show ?thesis
      using False sp(3,4) l rr mset_split[of its]
      by (subst build.simps) (simp add: Let_def)
  qed
qed





text \<open>The node array of a built tree is in creation order: every child stands after its
  parent and inside the array.\<close>

lemma length_to_nodes:
  "length (to_nodes i t) = kt_size t"
  "length (to_nodes_list i ts) = sum_list (map kt_size ts)"
  by (induction i t and i ts rule: to_nodes_to_nodes_list.induct) auto

lemma child_idxs_range:
  "c \<in> set (child_idxs j cs) \<Longrightarrow> j \<le> c \<and> c < j + sum_list (map kt_size cs) "
proof (induction j cs rule: child_idxs.induct)
  case (1 i)
  then show ?case by simp
next
  case (2 i c' cs)
  have "0 < kt_size c'" by (cases c') simp
  with 2 show ?case by auto
qed

lemma children_to_nodes:
  "k < kt_size t \<Longrightarrow> c \<in> set (children (to_nodes i t ! k))
     \<Longrightarrow> int (i + k) < c \<and> c < int (i + kt_size t)"
  "k < sum_list (map kt_size ts) \<Longrightarrow> c \<in> set (children (to_nodes_list i ts ! k))
     \<Longrightarrow> int (i + k) < c \<and> c < int (i + sum_list (map kt_size ts))"
proof (induction i t and i ts arbitrary: k and k rule: to_nodes_to_nodes_list.induct)
  case (1 i s its d l b cs)
  show ?case
  proof (cases k)
    case 0
    with "1.prems" obtain c' where "c' \<in> set (child_idxs (i + 1) cs)" "c = int c'" by auto
    with child_idxs_range[of c' "i + 1" cs] 0 show ?thesis by auto
  next
    case (Suc k')
    with "1.prems" have "k' < sum_list (map kt_size cs)"
      "c \<in> set (children (to_nodes_list (i + 1) cs ! k'))" by auto
    from "1.IH"[OF this] Suc show ?thesis by auto
  qed
next
  case (2 i)
  then show ?case by simp
next
  case (3 i t ts)
  show ?case
  proof (cases "k < kt_size t")
    case True
    with "3.prems" have "c \<in> set (children (to_nodes i t ! k))"
      by (simp add: nth_append length_to_nodes)
    from "3.IH"(1)[OF True this] show ?thesis by auto
  next
    case False
    let ?k = "k - kt_size t"
    from False "3.prems" have "?k < sum_list (map kt_size ts)"
      "c \<in> set (children (to_nodes_list (i + kt_size t) ts ! ?k))"
      by (auto simp: nth_append length_to_nodes)
    from "3.IH"(2)[OF this] False show ?thesis by auto
  qed
qed

lemma build_tree_preorder:
  assumes "build_tree points nrmls cap = Inr t"
  shows "preorder_tree t" "nodes t \<noteq> []"
proof -
  let ?t = "build cap 0 0 (zip [0..<length points] (zip points nrmls))"
  have n: "nodes t = to_nodes 0 ?t"
    using assms by (auto simp: build_tree_def Let_def split: if_splits)
  show "preorder_tree t"
    unfolding preorder_tree_def n using children_to_nodes(1)[of _ ?t _ 0]
    by (auto simp: length_to_nodes)
  have "0 < kt_size ?t" by (cases ?t) simp
  then show "nodes t \<noteq> []" unfolding n using length_to_nodes(1)[of 0 ?t] by auto
qed

lemma build_tree_pts_length:
  assumes "build_tree points nrmls cap = Inr t"
  shows "length (normals t) = length (pts t)"
  using assms by (auto simp: build_tree_def Let_def split: if_splits)




text \<open>
  Claim C6. For \<open>len(points)\<close> input points with as many normals, \<^verbatim>\<open>orig_idx\<close> of the built tree
  is a permutation of \<open>0, ..., len(points) - 1\<close>, and the point and the normal at each new
  position are the input point and normal at the original position \<^verbatim>\<open>orig_idx[new_position]\<close>.
\<close>

theorem build_tree_orig_idxs_permutation:
  assumes len: "length nrmls = length points"
  shows "\<exists>t. build_tree points nrmls cap = Inr t \<and>
           length (orig_idxs t) = length points \<and>
           distinct (orig_idxs t) \<and>
           set (orig_idxs t) = {0..<length points} \<and>
           (\<forall>i < length points.
               pts t ! i = points ! (orig_idxs t ! i) \<and>
               normals t ! i = nrmls ! (orig_idxs t ! i))"
proof -
  let ?its = "zip [0..<length points] (zip points nrmls)"
  let ?t = "build cap 0 0 ?its"
  let ?T = "\<lparr>nodes = to_nodes 0 ?t, pts = map item_pt (kt_items ?t),
             normals = map item_normal (kt_items ?t), orig_idxs = map fst (kt_items ?t),
             max_height = int (kt_height ?t)\<rparr>"
  have res: "build_tree points nrmls cap = Inr ?T"
    using len by (simp add: build_tree_def Let_def)
  have ms: "mset (kt_items ?t) = mset ?its" by (rule mset_build)
  have fst0: "map fst ?its = [0..<length points]" using len by simp
  have "mset (map fst (kt_items ?t)) = mset (map fst ?its)"
    using ms by (metis mset_map)
  then have mo: "mset (orig_idxs ?T) = mset [0..<length points]"
    unfolding fst0 by simp
  have l: "length (orig_idxs ?T) = length points"
    using mo by (metis size_mset length_upt diff_zero)
  have d: "distinct (orig_idxs ?T)"
    using mo by (metis distinct_upt mset_eq_imp_distinct_iff)
  have st: "set (orig_idxs ?T) = {0..<length points}"
    using mo by (metis mset_eq_setD set_upt)
  have el: "pts ?T ! i = points ! (orig_idxs ?T ! i) \<and> normals ?T ! i = nrmls ! (orig_idxs ?T ! i)"
    if i: "i < length points" for i
  proof -
    have li: "i < length (kt_items ?t)" using l i by simp
    then have "kt_items ?t ! i \<in> set (kt_items ?t)" by simp
    then have "kt_items ?t ! i \<in> set ?its" using ms by (metis mset_eq_setD)
    then obtain j where j: "j < length ?its" "kt_items ?t ! i = ?its ! j"
      by (auto simp: in_set_conv_nth)
    then have "kt_items ?t ! i = (j, points ! j, nrmls ! j)" using len by simp
    then show ?thesis using li by (simp add: item_pt_def item_normal_def)
  qed
  show ?thesis using res l d st el by blast
qed

theorem build_tree_orig_idxs_permutation_witness:
  "\<exists>t. build_tree ex_points ex_normals 1 = Inr t \<and> length (orig_idxs t) = 3 \<and>
       distinct (orig_idxs t) \<and> set (orig_idxs t) = {0..<3}"
proof -
  have "length ex_normals = length ex_points" by (simp add: ex_points_def ex_normals_def)
  from build_tree_orig_idxs_permutation[OF this, of 1]
  obtain t where "build_tree ex_points ex_normals 1 = Inr t"
    "length (orig_idxs t) = length ex_points" "distinct (orig_idxs t)"
    "set (orig_idxs t) = {0..<length ex_points}" by blast
  then show ?thesis by (auto simp: ex_points_def)
qed






section \<open>Properties of the dual-tree traversal\<close>

lemma m2l_ok_empty: "m2l_ok \<theta> ot st empty_op"
  by (simp add: m2l_ok_def empty_op_def)

lemma m2l_ok_insert:
  assumes "m2l_ok \<theta> ot st op" "obs_n \<in> set (nodes ot)" "src_n \<in> set (nodes st)"
    "well_separated \<theta> obs_n src_n"
  shows "m2l_ok \<theta> ot st (MatrixFreeOp_insert op obs_n src_n)"
proof (cases "end' obs_n - start obs_n = 0 \<or> end' src_n - start src_n = 0")
  case True
  then show ?thesis using assms(1) by (simp add: MatrixFreeOp_insert_def)
next
  case False
  let ?op = "op\<lparr>obs_n_idx := obs_n_idx op @ [idx obs_n], src_n_idx := src_n_idx op @ [idx src_n]\<rparr>"
  have len: "length (obs_n_idx op) = length (src_n_idx op)"
    and old: "\<And>k. k < length (obs_n_idx op) \<Longrightarrow>
        \<exists>o' \<in> set (nodes ot). \<exists>s' \<in> set (nodes st).
          idx o' = obs_n_idx op ! k \<and> idx s' = src_n_idx op ! k \<and>
          vec_dist (center (bounds o')) (center (bounds s'))
            > (sphere_r (bounds o') + sphere_r (bounds s')) / \<theta>"
    using assms(1) unfolding m2l_ok_def by blast+
  have "m2l_ok \<theta> ot st ?op"
    unfolding m2l_ok_def
  proof (intro conjI allI impI)
    show "length (obs_n_idx ?op) = length (src_n_idx ?op)" using len by simp
  next
    fix k assume k: "k < length (obs_n_idx ?op)"
    show "\<exists>o' \<in> set (nodes ot). \<exists>s' \<in> set (nodes st).
          idx o' = obs_n_idx ?op ! k \<and> idx s' = src_n_idx ?op ! k \<and>
          vec_dist (center (bounds o')) (center (bounds s'))
            > (sphere_r (bounds o') + sphere_r (bounds s')) / \<theta>"
    proof (cases "k < length (obs_n_idx op)")
      case True
      then show ?thesis using old[OF True] len by (simp add: nth_append)
    next
      case False
      then have ko: "k = length (obs_n_idx op)" using k by simp
      then have ks: "k = length (src_n_idx op)" using len by simp
      have "obs_n_idx ?op ! k = idx obs_n" unfolding ko by simp
      moreover have "src_n_idx ?op ! k = idx src_n" unfolding ks by simp
      ultimately show ?thesis
        using assms(2,3,4) unfolding well_separated_def by metis
    qed
  qed
  then show ?thesis using False by (simp add: MatrixFreeOp_insert_def)
qed

lemma vec_at_in_set: "vec_at v i = Some x \<Longrightarrow> x \<in> set v"
  by (auto simp: vec_at_def split: if_splits)

lemma fold_bind_preserves:
  assumes g: "\<And>c m m'. g c m = Some m' \<Longrightarrow> P m \<Longrightarrow> P m'"
  shows "fold (\<lambda>c r. Option.bind r (g c)) cs (Some m) = Some m' \<Longrightarrow> P m \<Longrightarrow> P m'"
proof (induction cs arbitrary: m)
  case Nil
  then show ?case by simp
next
  case (Cons c cs)
  show ?case
  proof (cases "g c m")
    case None
    have "fold (\<lambda>c r. Option.bind r (g c)) cs None = None" by (induction cs) auto
    with Cons.prems(1) None show ?thesis by simp
  next
    case (Some m1)
    have p: "P m1" by (rule g[OF Some Cons.prems(2)])
    have f: "fold (\<lambda>c r. Option.bind r (g c)) cs (Some m1) = Some m'"
      using Cons.prems(1) Some by simp
    show ?thesis by (rule Cons.IH[OF f p])
  qed
qed

lemma traverse_Suc:
  assumes "vec_at (nodes ot) oi = Some obs_n" "vec_at (nodes st) si = Some src_n"
  shows "traverse (Suc fuel) \<theta> ot st md oi si mat =
          (if well_separated \<theta> obs_n src_n then
            (case md of
               Free \<Rightarrow> Some (mat\<lparr>m2l := MatrixFreeOp_insert (m2l mat) obs_n src_n\<rparr>)
             | ObsLeaf \<Rightarrow> Some (mat\<lparr>m2p := MatrixFreeOp_insert (m2p mat) obs_n src_n\<rparr>)
             | SrcLeaf \<Rightarrow> Some (mat\<lparr>p2l := MatrixFreeOp_insert (p2l mat) obs_n src_n\<rparr>))
          else if is_leaf obs_n \<and> is_leaf src_n then
            Some (mat\<lparr>p2p := MatrixFreeOp_insert (p2p mat) obs_n src_n\<rparr>)
          else if is_leaf obs_n then
            fold (\<lambda>c r. Option.bind r (traverse fuel \<theta> ot st ObsLeaf oi c)) (children src_n) (Some mat)
          else if is_leaf src_n then
            fold (\<lambda>c r. Option.bind r (traverse fuel \<theta> ot st SrcLeaf c si)) (children obs_n) (Some mat)
          else if sphere_r (bounds src_n) < sphere_r (bounds obs_n) then
            fold (\<lambda>c r. Option.bind r (traverse fuel \<theta> ot st md c si)) (children obs_n) (Some mat)
          else
            fold (\<lambda>c r. Option.bind r (traverse fuel \<theta> ot st md oi c)) (children src_n) (Some mat))"
  unfolding traverse.simps assms by (simp only: prod.case option.case)

lemma traverse_Some_nodes:
  assumes "traverse fuel \<theta> ot st md oi si mat = Some mat'"
  shows "\<exists>obs_n src_n. vec_at (nodes ot) oi = Some obs_n \<and> vec_at (nodes st) si = Some src_n"
proof (cases fuel)
  case 0
  with assms show ?thesis by simp
next
  case (Suc f)
  show ?thesis
  proof (cases "vec_at (nodes ot) oi")
    case None
    with assms Suc show ?thesis by (simp only: traverse.simps prod.case option.case) simp
  next
    case o: (Some obs_n)
    show ?thesis
    proof (cases "vec_at (nodes st) si")
      case None
      with assms Suc o show ?thesis by (simp only: traverse.simps prod.case option.case) simp
    next
      case (Some src_n)
      with o show ?thesis by blast
    qed
  qed
qed

declare traverse.simps(2) [simp del]

lemma traverse_m2l_ok:
  "traverse fuel \<theta> ot st md oi si mat = Some mat' \<Longrightarrow> m2l_ok \<theta> ot st (m2l mat)
     \<Longrightarrow> m2l_ok \<theta> ot st (m2l mat')"
proof (induction fuel arbitrary: md oi si mat mat')
  case 0
  then show ?case by simp
next
  case (Suc fuel)
  from traverse_Some_nodes[OF Suc.prems(1)] obtain obs_n src_n where
    o: "vec_at (nodes ot) oi = Some obs_n" and s: "vec_at (nodes st) si = Some src_n"
    by blast
  note mem = vec_at_in_set[OF o] vec_at_in_set[OF s]
  note eq = traverse_Suc[OF o s, of fuel \<theta> md mat]
  let ?P = "\<lambda>m. m2l_ok \<theta> ot st (m2l m)"
  have step: "?P mat'"
    if "\<And>c m m'. g c m = Some m' \<Longrightarrow> ?P m \<Longrightarrow> ?P m'"
      and "fold (\<lambda>c r. Option.bind r (g c)) cs (Some mat) = Some mat'" for g cs
    using that(2) Suc.prems(2)
    by (rule fold_bind_preserves[where P = ?P and g = g, rotated]) (rule that(1))
  show ?case
  proof (cases "well_separated \<theta> obs_n src_n")
    case True
    have "traverse (Suc fuel) \<theta> ot st md oi si mat =
            (case md of
               Free \<Rightarrow> Some (mat\<lparr>m2l := MatrixFreeOp_insert (m2l mat) obs_n src_n\<rparr>)
             | ObsLeaf \<Rightarrow> Some (mat\<lparr>m2p := MatrixFreeOp_insert (m2p mat) obs_n src_n\<rparr>)
             | SrcLeaf \<Rightarrow> Some (mat\<lparr>p2l := MatrixFreeOp_insert (p2l mat) obs_n src_n\<rparr>))"
      unfolding eq using True by simp
    then show ?thesis
      using Suc.prems m2l_ok_insert[OF Suc.prems(2) mem True]
      by (cases md) auto
  next
    case ns: False
    show ?thesis
    proof (cases "is_leaf obs_n \<and> is_leaf src_n")
      case True
      have "traverse (Suc fuel) \<theta> ot st md oi si mat =
          Some (mat\<lparr>p2p := MatrixFreeOp_insert (p2p mat) obs_n src_n\<rparr>)"
        unfolding eq using ns True by simp
      then show ?thesis using Suc.prems by auto
    next
      case nl: False
      show ?thesis
      proof (cases "is_leaf obs_n")
        case True
        have "traverse (Suc fuel) \<theta> ot st md oi si mat =
            fold (\<lambda>c r. Option.bind r (traverse fuel \<theta> ot st ObsLeaf oi c))
                     (children src_n) (Some mat)"
          unfolding eq using ns nl True by simp
        then show ?thesis
          using Suc.prems(1) by (intro step[of "traverse fuel \<theta> ot st ObsLeaf oi"]) (auto intro: Suc.IH)
      next
        case ol: False
        show ?thesis
        proof (cases "is_leaf src_n")
          case True
          have "traverse (Suc fuel) \<theta> ot st md oi si mat =
            fold (\<lambda>c r. Option.bind r (traverse fuel \<theta> ot st SrcLeaf c si))
                     (children obs_n) (Some mat)"
            unfolding eq using ns nl ol True by simp
          then show ?thesis
            using Suc.prems(1)
            by (intro step[of "\<lambda>c. traverse fuel \<theta> ot st SrcLeaf c si"]) (auto intro: Suc.IH)
        next
          case sl: False
          show ?thesis
          proof (cases "sphere_r (bounds src_n) < sphere_r (bounds obs_n)")
            case True
            have "traverse (Suc fuel) \<theta> ot st md oi si mat =
              fold (\<lambda>c r. Option.bind r (traverse fuel \<theta> ot st md c si))
                     (children obs_n) (Some mat)"
              unfolding eq using ns nl ol sl True by simp
            then show ?thesis
              using Suc.prems(1)
              by (intro step[of "\<lambda>c. traverse fuel \<theta> ot st md c si"]) (auto intro: Suc.IH)
          next
            case False
            have "traverse (Suc fuel) \<theta> ot st md oi si mat =
              fold (\<lambda>c r. Option.bind r (traverse fuel \<theta> ot st md oi c))
                     (children src_n) (Some mat)"
              unfolding eq using ns nl ol sl False by simp
            then show ?thesis
              using Suc.prems(1)
              by (intro step[of "traverse fuel \<theta> ot st md oi"]) (auto intro: Suc.IH)
          qed
        qed
      qed
    qed
  qed
qed

lemma fold_bind_defined:
  assumes "\<And>c m. c \<in> set cs \<Longrightarrow> \<exists>m'. g c m = Some m'"
  shows "\<exists>m'. fold (\<lambda>c r. Option.bind r (g c)) cs (Some m) = Some m'"
  using assms
proof (induction cs arbitrary: m)
  case Nil
  then show ?case by simp
next
  case (Cons c cs)
  obtain m1 where m1: "g c m = Some m1" using Cons.prems[of c m] by auto
  have "\<exists>m'. fold (\<lambda>c r. Option.bind r (g c)) cs (Some m1) = Some m'"
    by (rule Cons.IH) (simp add: Cons.prems)
  then show ?case using m1 by simp
qed

lemma traverse_returns:
  assumes po: "preorder_tree ot" "preorder_tree st"
  shows "0 \<le> oi \<Longrightarrow> oi < int (length (nodes ot)) \<Longrightarrow> 0 \<le> si \<Longrightarrow> si < int (length (nodes st))
     \<Longrightarrow> (int (length (nodes ot)) - oi) + (int (length (nodes st)) - si) \<le> int fuel
     \<Longrightarrow> \<exists>mat'. traverse fuel \<theta> ot st md oi si mat = Some mat'"
proof (induction fuel arbitrary: md oi si mat)
  case 0
  then show ?case by simp
next
  case (Suc fuel)
  let ?o = "nodes ot ! nat oi" and ?s = "nodes st ! nat si"
  have o: "vec_at (nodes ot) oi = Some ?o" and s: "vec_at (nodes st) si = Some ?s"
    using Suc.prems by (simp_all add: vec_at_def)
  note eq = traverse_Suc[OF o s, of fuel \<theta> md mat]
  have co: "int (nat oi) < c \<and> c < int (length (nodes ot))" if "c \<in> set (children ?o)" for c
    using po(1) that Suc.prems(1,2) unfolding preorder_tree_def by (metis nat_less_iff)
  have cs: "int (nat si) < c \<and> c < int (length (nodes st))" if "c \<in> set (children ?s)" for c
    using po(2) that Suc.prems(3,4) unfolding preorder_tree_def by (metis nat_less_iff)
  have down_s: "\<exists>m'. fold (\<lambda>c r. Option.bind r (traverse fuel \<theta> ot st md' oi c))
                     (children ?s) (Some mat) = Some m'" for md'
  proof (rule fold_bind_defined)
    fix c m assume "c \<in> set (children ?s)"
    from cs[OF this] Suc.prems show "\<exists>m'. traverse fuel \<theta> ot st md' oi c m = Some m'"
      by (intro Suc.IH) auto
  qed
  have down_o: "\<exists>m'. fold (\<lambda>c r. Option.bind r (traverse fuel \<theta> ot st md' c si))
                     (children ?o) (Some mat) = Some m'" for md'
  proof (rule fold_bind_defined)
    fix c m assume "c \<in> set (children ?o)"
    from co[OF this] Suc.prems show "\<exists>m'. traverse fuel \<theta> ot st md' c si m = Some m'"
      by (intro Suc.IH) auto
  qed
  show ?case
    unfolding eq using down_s down_o by (auto split: descent.splits)
qed

lemma build_fmm_returns:
  assumes "\<not> invalid_config kernels cfg"
    and "length obs_nrmls = length (pts ot)" "length src_nrmls = length (pts st)"
    and "preorder_tree ot" "preorder_tree st" "nodes ot \<noteq> []" "nodes st \<noteq> []"
  shows "\<exists>fmm. build_fmm kernels ot obs_nrmls st src_nrmls cfg = Some (Inr fmm)"
proof -
  have "\<exists>mat'. traverse (length (nodes ot) + length (nodes st)) (cfg_mac cfg) ot st Free 0 0
           \<lparr>p2p = empty_op, m2p = empty_op, p2l = empty_op, m2l = empty_op\<rparr> = Some mat'"
    using assms(6,7) by (intro traverse_returns[OF assms(4,5)]) auto
  then show ?thesis using assms(1,2,3) by (auto simp: build_fmm_def)
qed

lemma build_fmm_on_built_trees:
  assumes "build_tree obs_points obs_nrmls cap = Inr ot"
    and "build_tree src_points src_nrmls cap' = Inr st"
    and "\<not> invalid_config kernels cfg"
  shows "\<exists>fmm. build_fmm kernels ot (normals ot) st (normals st) cfg = Some (Inr fmm)"
  using assms
  by (intro build_fmm_returns build_tree_preorder build_tree_pts_length)

lemma lt_sqrt_iff: "0 \<le> c \<Longrightarrow> c < sqrt x \<longleftrightarrow> c\<^sup>2 < x"
proof -
  assume "0 \<le> c"
  then have "sqrt (c\<^sup>2) = c" by simp
  then show ?thesis by (metis real_sqrt_less_iff)
qed

lemma build_fmm_example:
  "build_fmm [''one'', ''inv_r''] ex_obs_tree [[0, 0, 1]] ex_built ex_normals ex_cfg
     = Some (Inr ex_fmm)"
  by (simp add: build_fmm_def invalid_config_def ex_cfg_def ex_obs_tree_def ex_built_def
        ex_normals_def ex_fmm_def traverse.simps vec_at_def well_separated_def vec_dist_def
        lt_sqrt_iff MatrixFreeOp_insert_def empty_op_def)


text \<open>
  Claim C1. Whenever \<^verbatim>\<open>build_fmm\<close> returns an FMM object, the configuration is valid and every pair
  of the M2L list is the pair of indices of an observation node and a source node with
  \<open>||c_o - c_s|| > (r_o + r_s) / mac\<close>.
\<close>

theorem m2l_pairs_well_separated:
  assumes "build_fmm kernels ot obs_nrmls st src_nrmls cfg = Some (Inr fmm)"
  shows "\<not> invalid_config kernels cfg \<and>
         length (obs_n_idx (m2l fmm)) = length (src_n_idx (m2l fmm)) \<and>
         (\<forall>k < length (obs_n_idx (m2l fmm)).
            \<exists>obs_n \<in> set (nodes ot). \<exists>src_n \<in> set (nodes st).
              idx obs_n = obs_n_idx (m2l fmm) ! k \<and> idx src_n = src_n_idx (m2l fmm) ! k \<and>
              vec_dist (center (bounds obs_n)) (center (bounds src_n))
                > (sphere_r (bounds obs_n) + sphere_r (bounds src_n)) / cfg_mac cfg)"
proof -
  have v: "\<not> invalid_config kernels cfg"
    using assms by (auto simp: build_fmm_def split: if_splits)
  then have "traverse (length (nodes ot) + length (nodes st)) (cfg_mac cfg) ot st Free 0 0
           \<lparr>p2p = empty_op, m2p = empty_op, p2l = empty_op, m2l = empty_op\<rparr> = Some fmm"
    using assms by (auto simp: build_fmm_def split: if_splits)
  from traverse_m2l_ok[OF this] have "m2l_ok (cfg_mac cfg) ot st (m2l fmm)"
    by (simp add: m2l_ok_empty)
  then show ?thesis using v unfolding m2l_ok_def by blast
qed


theorem m2l_pairs_well_separated_witness:
  "build_fmm [''one'', ''inv_r''] ex_obs_tree [[0, 0, 1]] ex_built ex_normals ex_cfg
     = Some (Inr ex_fmm) \<and>
   m2l ex_fmm = \<lparr>obs_n_idx = [0], src_n_idx = [0]\<rparr> \<and>
   vec_dist [10, 0, 0] [1, 0, 0] > (0 + 1) / (2 / 5)"
proof -
  from m2l_pairs_well_separated[OF build_fmm_example]
  have "\<forall>k < length (obs_n_idx (m2l ex_fmm)).
            \<exists>obs_n \<in> set (nodes ex_obs_tree). \<exists>src_n \<in> set (nodes ex_built).
              idx obs_n = obs_n_idx (m2l ex_fmm) ! k \<and> idx src_n = src_n_idx (m2l ex_fmm) ! k \<and>
              vec_dist (center (bounds obs_n)) (center (bounds src_n))
                > (sphere_r (bounds obs_n) + sphere_r (bounds src_n)) / cfg_mac ex_cfg"
    by blast
  then have "vec_dist [10, 0, 0] [1, 0, 0] > (0 + 1) / (2 / 5)"
    by (auto simp: ex_fmm_def ex_obs_tree_def ex_built_def ex_cfg_def)
  then show ?thesis using build_fmm_example by (simp add: ex_fmm_def)
qed


end
